theory Spec2Isabelle
  imports Main "HOL-Library.Word" "HOL-Library.Sublist"
begin

unbundle bit_operations_syntax

section \<open>Go standard library functions used by \<^verbatim>\<open>dir_image.go\<close>\<close>

text \<open>
  The extractor of \<^verbatim>\<open>src/pkg/imgpkg/image/dir_image.go\<close> builds every path with
  \<^verbatim>\<open>strings.Split\<close>, \<^verbatim>\<open>filepath.Join\<close>, \<^verbatim>\<open>filepath.Dir\<close> and
  \<^verbatim>\<open>filepath.Base\<close>. They are modelled here as the Go standard library defines
  them on a Unix host (separator \<^verbatim>\<open>/\<close>, no volume names). Go strings are byte
  strings: \<^typ>\<open>string\<close>.
\<close>

definition sep :: char where
  "sep = CHR ''/''"

definition backslash :: char where
  "backslash = CHR 0x5C"

text \<open>\<^verbatim>\<open>strings.Split(s, c)\<close> for a one-byte separator: the pieces between the
  separators, empty pieces included; the empty string gives one empty piece.\<close>

fun Split :: "string \<Rightarrow> char \<Rightarrow> string list" where
  "Split [] c = [[]]"
| "Split (x # xs) c =
     (if x = c then [] # Split xs c
      else (case Split xs c of [] \<Rightarrow> [[x]] | y # ys \<Rightarrow> (x # y) # ys))"

text \<open>\<^verbatim>\<open>strings.Join(elems, s)\<close>.\<close>

fun strings_Join :: "string list \<Rightarrow> string \<Rightarrow> string" where
  "strings_Join [] s = []"
| "strings_Join [x] s = x"
| "strings_Join (x # y # ys) s = x @ s @ strings_Join (y # ys) s"

definition HasPrefix :: "string \<Rightarrow> string \<Rightarrow> bool" where
  "HasPrefix s p = (take (length p) s = p)"

definition TrimPrefix :: "string \<Rightarrow> string \<Rightarrow> string" where
  "TrimPrefix s p = (if HasPrefix s p then drop (length p) s else s)"

text \<open>
  \<^verbatim>\<open>filepath.Clean\<close> reads the path element by element. The elements kept so far are
  a stack (\<open>out\<close>, last element first): an empty element and \<^verbatim>\<open>.\<close> are dropped,
  \<^verbatim>\<open>..\<close> removes the element before it when there is one that is not itself a kept
  \<^verbatim>\<open>..\<close>, is dropped at the start of a rooted path, and is kept at the start of a
  relative one.
\<close>

fun clean_elems :: "bool \<Rightarrow> string list \<Rightarrow> string list \<Rightarrow> string list" where
  "clean_elems rooted out [] = out"
| "clean_elems rooted out (e # es) =
     (if e = [] \<or> e = ''.'' then clean_elems rooted out es
      else if e = ''..'' then
        (case out of
           e' # rest \<Rightarrow>
             (if e' \<noteq> ''..'' then clean_elems rooted rest es
              else if \<not> rooted then clean_elems rooted (''..'' # out) es
              else clean_elems rooted out es)
         | [] \<Rightarrow>
             (if \<not> rooted then clean_elems rooted (''..'' # out) es
              else clean_elems rooted out es))
      else clean_elems rooted (e # out) es)"

definition Clean :: "string \<Rightarrow> string" where
  "Clean path =
     (if path = [] then ''.''
      else
        let rooted = (hd path = sep);
            out = rev (clean_elems rooted [] (Split path sep))
        in if rooted then sep # strings_Join out [sep]
           else if out = [] then ''.''
           else strings_Join out [sep])"

text \<open>\<^verbatim>\<open>filepath.Join\<close>: leading empty elements are ignored, the rest is joined with
  the separator and cleaned; no non-empty element gives the empty string.\<close>

fun Join :: "string list \<Rightarrow> string" where
  "Join [] = []"
| "Join (e # es) = (if e = [] then Join es else Clean (strings_Join (e # es) [sep]))"

text \<open>\<^verbatim>\<open>filepath.Dir\<close>: everything up to and including the last separator, cleaned.\<close>

definition Dir :: "string \<Rightarrow> string" where
  "Dir path = Clean (rev (dropWhile (\<lambda>c. c \<noteq> sep) (rev path)))"

text \<open>\<^verbatim>\<open>filepath.Base\<close>: the last element, trailing separators removed first.\<close>

definition Base :: "string \<Rightarrow> string" where
  "Base path =
     (if path = [] then ''.''
      else
        let p = dropWhile (\<lambda>c. c = sep) (rev path);
            b = rev (takeWhile (\<lambda>c. c \<noteq> sep) p)
        in if b = [] then [sep] else b)"

section \<open>The path normalizer\<close>

text \<open>The fields of \<^verbatim>\<open>DirImage\<close> that the extraction reads. The image and the
  logger are collaborators: the layers are handed to \<open>AsDirectory\<close> as data.
  \<open>umask\<close> is not a field of the Go struct: it is the file mode creation mask of the
  process, which the operating system applies when \<^verbatim>\<open>os.OpenFile\<close> creates a file.
  It stands here with \<open>shouldChown\<close>, which \<^verbatim>\<open>NewDirImage\<close> reads from the process as
  well (\<^verbatim>\<open>os.Getuid() == 0\<close>); both are fixed during a run.\<close>

record DirImage =
  dirPath :: string
  shouldChown :: bool
  umask :: "32 word"

definition hydrateFilepath :: "DirImage \<Rightarrow> string \<Rightarrow> string" where
  "hydrateFilepath i fPath =
     (let lPath =
        (if backslash \<in> set fPath then Join (Split fPath backslash)
         else Join (Split fPath sep))
      in Join [dirPath i, lPath])"


section \<open>Termination of the walk towards the root\<close>

text \<open>
  \<open>inWhiteoutDir\<close> walks from a path to its parents with \<^verbatim>\<open>filepath.Dir\<close> until the
  path no longer changes. The walk ends because \<open>Dir\<close> never returns a longer path,
  and returns one of the same length only when it returns \<^verbatim>\<open>.\<close> for a one-byte name.
\<close>

definition elems_size :: "string list \<Rightarrow> nat" where
  "elems_size es = sum_list (map (\<lambda>e. Suc (length e)) es)"

definition elems_weight :: "string list \<Rightarrow> nat" where
  "elems_weight es = sum_list (map (\<lambda>e. if e = [] then 0 else Suc (length e)) es)"

definition path_measure :: "string \<Rightarrow> nat" where
  "path_measure p = 2 * length p + (if p = ''.'' then 0 else 1)"

lemma Split_not_Nil: "Split s c \<noteq> []"
  by (induction s) (auto split: list.splits)

lemma elems_size_Split: "elems_size (Split s c) = Suc (length s)"
proof (induction s)
  case Nil
  show ?case by (simp add: elems_size_def)
next
  case (Cons x xs)
  obtain y ys where sp: "Split xs c = y # ys"
    using Split_not_Nil [of xs c] by (cases "Split xs c") auto
  with Cons show ?case by (simp add: elems_size_def)
qed

lemma Split_snoc_sep: "Split (s @ [c]) c = Split s c @ [[]]"
proof (induction s)
  case Nil
  show ?case by simp
next
  case (Cons x xs)
  obtain y ys where sp: "Split xs c = y # ys"
    using Split_not_Nil [of xs c] by (cases "Split xs c") auto
  with Cons show ?case by simp
qed

lemma elems_weight_le_size: "elems_weight es \<le> elems_size es"
  by (induction es) (auto simp: elems_weight_def elems_size_def)

lemma elems_weight_append: "elems_weight (xs @ ys) = elems_weight xs + elems_weight ys"
  by (simp add: elems_weight_def)

lemma elems_size_Nil: "elems_size [] = 0"
  by (simp add: elems_size_def)

lemma elems_size_rev: "elems_size (rev es) = elems_size es"
  by (simp add: elems_size_def rev_map [symmetric])

lemma clean_elems_size:
  "elems_size (clean_elems rooted out es) \<le> elems_size out + elems_weight es"
proof (induction es arbitrary: out)
  case Nil
  show ?case by (simp add: elems_weight_def)
next
  case (Cons e es)
  have step: "\<And>out'. elems_size out' \<le> elems_size out + (if e = [] then 0 else Suc (length e))
      \<Longrightarrow> elems_size (clean_elems rooted out' es) \<le> elems_size out + elems_weight (e # es)"
  proof -
    fix out'
    assume a: "elems_size out' \<le> elems_size out + (if e = [] then 0 else Suc (length e))"
    have "elems_size (clean_elems rooted out' es) \<le> elems_size out' + elems_weight es"
      by (rule Cons.IH)
    with a show "elems_size (clean_elems rooted out' es) \<le> elems_size out + elems_weight (e # es)"
      by (simp add: elems_weight_def)
  qed
  show ?case
  proof (cases "e = [] \<or> e = ''.''")
    case True
    then show ?thesis using step [of out] by auto
  next
    case False
    note ne = False
    show ?thesis
    proof (cases "e = ''..''")
      case True
      show ?thesis
      proof (cases out)
        case Nil
        then show ?thesis using True step [of out] step [of "''..'' # out"]
          by (cases rooted) (auto simp: elems_size_def)
      next
        case (Cons e' rest)
        then show ?thesis using True step [of out] step [of "''..'' # out"] step [of rest]
          by (cases rooted; cases "e' = ''..''") (auto simp: elems_size_def)
      qed
    next
      case False
      then show ?thesis using ne step [of "e # out"] by (auto simp: elems_size_def)
    qed
  qed
qed

lemma length_strings_Join: "length (strings_Join es [c]) \<le> elems_size es - 1"
  by (induction es "[c]" rule: strings_Join.induct) (auto simp: elems_size_def)

lemma length_Clean_snoc_sep:
  assumes "s \<noteq> []"
  shows "length (Clean (s @ [sep])) \<le> length s"
proof (cases "hd s = sep")
  case True
  then obtain s' where s: "s = sep # s'" using assms by (cases s) auto
  let ?out = "clean_elems True [] (Split (s @ [sep]) sep)"
  have "Split (s @ [sep]) sep = [] # Split s' sep @ [[]]"
    using s Split_snoc_sep [of s' sep] by simp
  then have "elems_weight (Split (s @ [sep]) sep) = elems_weight (Split s' sep)"
    by (simp add: elems_weight_def)
  also have "\<dots> \<le> Suc (length s')"
    using elems_weight_le_size [of "Split s' sep"] by (simp add: elems_size_Split)
  finally have w: "elems_weight (Split (s @ [sep]) sep) \<le> length s" using s by simp
  have "elems_size (rev ?out) \<le> elems_size [] + elems_weight (Split (s @ [sep]) sep)"
    unfolding elems_size_rev by (rule clean_elems_size)
  with w have "elems_size (rev ?out) \<le> length s"
    by (simp add: elems_size_Nil)
  then have "length (strings_Join (rev ?out) [sep]) \<le> length s - 1"
    using length_strings_Join [of "rev ?out" sep] by linarith
  moreover have "Clean (s @ [sep]) = sep # strings_Join (rev ?out) [sep]"
    using s by (simp add: Clean_def)
  ultimately show ?thesis using assms by (cases s) auto
next
  case False
  let ?out = "clean_elems False [] (Split (s @ [sep]) sep)"
  have "elems_weight (Split (s @ [sep]) sep) = elems_weight (Split s sep)"
    by (simp add: Split_snoc_sep elems_weight_append) (simp add: elems_weight_def)
  also have "\<dots> \<le> Suc (length s)"
    using elems_weight_le_size [of "Split s sep"] by (simp add: elems_size_Split)
  finally have w: "elems_weight (Split (s @ [sep]) sep) \<le> Suc (length s)" .
  have "elems_size (rev ?out) \<le> elems_size [] + elems_weight (Split (s @ [sep]) sep)"
    unfolding elems_size_rev by (rule clean_elems_size)
  with w have "elems_size (rev ?out) \<le> Suc (length s)"
    by (simp add: elems_size_Nil)
  then have j: "length (strings_Join (rev ?out) [sep]) \<le> length s"
    using length_strings_Join [of "rev ?out" sep] by linarith
  have hd: "hd (s @ [sep]) \<noteq> sep" using False assms by (cases s) auto
  have "Clean (s @ [sep]) = (if rev ?out = [] then ''.'' else strings_Join (rev ?out) [sep])"
    using hd by (simp add: Clean_def Let_def)
  with j show ?thesis using assms by (cases s) (auto split: if_splits)
qed

lemma Clean_root: "Clean [sep] = [sep]"
  by (simp add: Clean_def sep_def)

lemma path_measure_less: "length a < length b \<Longrightarrow> path_measure a < path_measure b"
  unfolding path_measure_def by (cases "a = ''.''"; cases "b = ''.''") simp_all

lemma Dir_measure:
  assumes "file \<noteq> []" and "Dir file \<noteq> file"
  shows "path_measure (Dir file) < path_measure file"
proof -
  let ?pre = "rev (dropWhile (\<lambda>c. c \<noteq> sep) (rev file))"
  have len: "length ?pre \<le> length file"
    using length_dropWhile_le [of "\<lambda>c. c \<noteq> sep" "rev file"] by simp
  show ?thesis
  proof (cases "?pre = []")
    case True
    then have d: "Dir file = ''.''" by (simp add: Dir_def Clean_def)
    have "1 \<le> length file" using assms(1) by (cases "file") auto
    with d assms show ?thesis by (auto simp: path_measure_def)
  next
    case False
    then have "dropWhile (\<lambda>c. c \<noteq> sep) (rev file) \<noteq> []" by simp
    then have "hd (dropWhile (\<lambda>c. c \<noteq> sep) (rev file)) = sep"
      using hd_dropWhile [of "\<lambda>c. c \<noteq> sep" "rev file"] by simp
    then obtain s where pre: "?pre = s @ [sep]"
      using False by (cases "dropWhile (\<lambda>c. c \<noteq> sep) (rev file)") auto
    show ?thesis
    proof (cases "s = []")
      case True
      then have d: "Dir file = [sep]" using pre Clean_root by (simp add: Dir_def)
      have "2 \<le> length file"
      proof (rule ccontr)
        assume "\<not> 2 \<le> length file"
        moreover have "length file \<noteq> 0" using assms(1) by simp
        ultimately have "length file = 1" by linarith
        then obtain x where x: "file = [x]" by (cases "file") auto
        with pre True have "x = sep" by (auto split: if_splits)
        with x d assms(2) show False by simp
      qed
      then show ?thesis using d by (auto simp: path_measure_def sep_def)
    next
      case False
      have "length (Dir file) \<le> length s"
        using length_Clean_snoc_sep [OF False] pre by (simp add: Dir_def)
      moreover have "length s < length file" using len pre by simp
      ultimately have "length (Dir file) < length file" by linarith
      then show ?thesis by (rule path_measure_less)
    qed
  qed
qed


section \<open>The file system\<close>

text \<open>
  The extractor acts on the host file system through the \<^verbatim>\<open>os\<close> package. The file
  system is a map from path strings to nodes; it holds directories and regular files
  (the extractor creates nothing else). A regular file carries its bytes, its mode on
  disk as an \<^verbatim>\<open>os.FileMode\<close>, the user and group ids set by \<^verbatim>\<open>os.Lchown\<close>
  (\<open>None\<close>: the id of the creating process) and the times set by \<^verbatim>\<open>os.Chtimes\<close>
  (\<open>None\<close>: not set since the file was last written). Directories carry no mode.

  The file system is keyed by cleaned paths, and every operation looks its path up
  under \<open>Clean\<close>: this is what the operating system does with repeated and trailing
  separators and with \<^verbatim>\<open>.\<close> elements, and with a \<^verbatim>\<open>..\<close> element when the directory
  before it exists (there are no symbolic links in the model). A relative path is a key
  of its own: the working directory is not modelled.

  An operation returns the error (\<open>None\<close> for \<^verbatim>\<open>nil\<close>) and the file system it leaves.
  Failures that depend on the host only (permissions, a full disk) are not modelled;
  those that the file system's content decides are.
\<close>

type_synonym FileMode = "32 word"

datatype node =
    Directory
  | File (content: string) (perm: FileMode)
      (owner: "32 word option \<times> 32 word option") (times: "(int \<times> int) option")

type_synonym filesystem = "string \<Rightarrow> node option"

datatype error =
    ENOENT
  | ENOTDIR
  | EISDIR
  | EEXIST
  | EINVAL
  | UnsupportedEntry "8 word" string
  | RemovingOutputDirectory error
  | CreatingOutputDirectory error

text \<open>The proper ancestors of a path, outermost first: \<^verbatim>\<open>/out/a/b\<close> has
  \<^verbatim>\<open>/\<close>, \<^verbatim>\<open>/out\<close> and \<^verbatim>\<open>/out/a\<close>.\<close>

definition parents :: "string \<Rightarrow> string list" where
  "parents p =
     (if 1 < length p \<and> hd p = sep then [[sep]] else []) @
     map (\<lambda>k. take k p) (filter (\<lambda>k. p ! k = sep) [1..<length p])"

fun is_file :: "node option \<Rightarrow> bool" where
  "is_file (Some (File c m ow t)) = True"
| "is_file _ = False"

text \<open>A path below a regular file cannot be resolved (\<^verbatim>\<open>ENOTDIR\<close>).\<close>

definition below_file :: "filesystem \<Rightarrow> string \<Rightarrow> bool" where
  "below_file fs p = list_ex (\<lambda>q. is_file (fs q)) (parents p)"

text \<open>The directory that holds a path exists (a relative name of one element is held
  by the working directory).\<close>

definition parent_exists :: "filesystem \<Rightarrow> string \<Rightarrow> bool" where
  "parent_exists fs p = (parents p = [] \<or> fs (last (parents p)) = Some Directory)"

definition Lstat :: "string \<Rightarrow> filesystem \<Rightarrow> error + node" where
  "Lstat p fs =
     (if p = [] then Inl ENOENT
      else if below_file fs (Clean p) then Inl ENOTDIR
      else (case fs (Clean p) of None \<Rightarrow> Inl ENOENT | Some n \<Rightarrow> Inr n))"

definition IsDir :: "node \<Rightarrow> bool" where
  "IsDir fi = (fi = Directory)"

text \<open>\<^verbatim>\<open>os.RemoveAll\<close>: nothing to do for the empty path and for an absent path;
  \<^verbatim>\<open>EINVAL\<close> for a path that ends in a \<^verbatim>\<open>.\<close> element; an error for a path below a
  regular file (\<^verbatim>\<open>unlinkat\<close> answers \<^verbatim>\<open>ENOTDIR\<close>, which \<^verbatim>\<open>RemoveAll\<close> does not take
  for absence); otherwise the path and all below it are removed.\<close>

definition endsWithDot :: "string \<Rightarrow> bool" where
  "endsWithDot p =
     (p = ''.'' \<or> (2 \<le> length p \<and> last p = CHR ''.'' \<and> last (butlast p) = sep))"

definition RemoveAll :: "string \<Rightarrow> filesystem \<Rightarrow> error option \<times> filesystem" where
  "RemoveAll p fs =
     (if p = [] then (None, fs)
      else if endsWithDot p then (Some EINVAL, fs)
      else if below_file fs (Clean p) then (Some ENOTDIR, fs)
      else (None, (\<lambda>q. if q = Clean p \<or> Clean p \<in> set (parents q) then None else fs q)))"

definition Mkdir :: "string \<Rightarrow> filesystem \<Rightarrow> error option \<times> filesystem" where
  "Mkdir p fs =
     (if p = [] then (Some ENOENT, fs)
      else if below_file fs (Clean p) then (Some ENOTDIR, fs)
      else if fs (Clean p) \<noteq> None then (Some EEXIST, fs)
      else if \<not> parent_exists fs (Clean p) then (Some ENOENT, fs)
      else (None, fs(Clean p \<mapsto> Directory)))"

text \<open>\<^verbatim>\<open>os.MkdirAll\<close>, as the Go library has it: done when the path is a directory,
  \<^verbatim>\<open>ENOTDIR\<close> when it is a file; otherwise the parent (the path without its last
  element, when that leaves more than the root) is made first, then the path.\<close>

function MkdirAll :: "string \<Rightarrow> filesystem \<Rightarrow> error option \<times> filesystem" where
  "MkdirAll path fs =
     (case Lstat path fs of
        Inr fi \<Rightarrow> (if IsDir fi then (None, fs) else (Some ENOTDIR, fs))
      | Inl _ \<Rightarrow>
          (let j = length (dropWhile (\<lambda>c. c \<noteq> sep) (dropWhile (\<lambda>c. c = sep) (rev path)))
           in if 1 < j then
                (case MkdirAll (take (j - 1) path) fs of
                   (Some err, fs1) \<Rightarrow> (Some err, fs1)
                 | (None, fs1) \<Rightarrow> Mkdir path fs1)
              else Mkdir path fs))"
  by pat_completeness auto
termination
proof (relation "measure (\<lambda>(path, fs). length path)")
  show "wf (measure (\<lambda>(path, fs). length path))" by simp
next
  fix path :: string and fs :: filesystem and a j
  assume j: "j = length (dropWhile (\<lambda>c. c \<noteq> sep) (dropWhile (\<lambda>c. c = sep) (rev path)))"
    and "1 < j"
  have "j \<le> length (dropWhile (\<lambda>c. c = sep) (rev path))"
    unfolding j by (rule length_dropWhile_le)
  also have "\<dots> \<le> length (rev path)" by (rule length_dropWhile_le)
  finally have "j \<le> length path" by simp
  with \<open>1 < j\<close> show "((take (j - 1) path, fs), (path, fs)) \<in> measure (\<lambda>(path, fs). length path)"
    by simp
qed

declare MkdirAll.simps [simp del]

text \<open>The mode of a file that \<^verbatim>\<open>open(2)\<close> creates for \<^verbatim>\<open>os.OpenFile\<close> with the
  mode \<open>perm'\<close> under the mask \<open>um\<close>: Go passes the permission bits (octal 0777,
  \<open>0x1FF\<close>) and the setuid, setgid and sticky bits (\<^verbatim>\<open>ModeSetuid\<close>, \<^verbatim>\<open>ModeSetgid\<close>,
  \<^verbatim>\<open>ModeSticky\<close>: \<open>0x800000\<close>, \<open>0x400000\<close>, \<open>0x100000\<close>) of \<open>perm'\<close>, and the
  operating system clears the permission bits of the mask.\<close>

definition created_mode :: "FileMode \<Rightarrow> FileMode \<Rightarrow> FileMode" where
  "created_mode um perm' = (perm' AND 0xD001FF) AND NOT (um AND 0x1FF)"

text \<open>\<^verbatim>\<open>os.OpenFile(path, O_RDWR|O_CREATE|O_TRUNC, perm)\<close> under the mask \<open>um\<close>: an
  existing file is emptied and keeps its mode, a new one gets \<open>created_mode um perm'\<close>
  (the extractor never changes a mode afterwards); a directory cannot be opened for
  writing.\<close>

definition OpenFile ::
  "string \<Rightarrow> FileMode \<Rightarrow> FileMode \<Rightarrow> filesystem \<Rightarrow> error option \<times> filesystem" where
  "OpenFile p perm' um fs =
     (if p = [] then (Some ENOENT, fs)
      else if below_file fs (Clean p) then (Some ENOTDIR, fs)
      else (case fs (Clean p) of
              Some Directory \<Rightarrow> (Some EISDIR, fs)
            | Some (File c m ow t) \<Rightarrow> (None, fs(Clean p \<mapsto> File [] m ow None))
            | None \<Rightarrow>
                (if parent_exists fs (Clean p)
                 then (None, fs(Clean p \<mapsto> File [] (created_mode um perm') (None, None) None))
                 else (Some ENOENT, fs))))"

text \<open>\<^verbatim>\<open>io.Copy(file, input)\<close> followed by \<^verbatim>\<open>file.Close()\<close>: the entry's bytes are
  appended to the open file.\<close>

definition Copy :: "string \<Rightarrow> string \<Rightarrow> filesystem \<Rightarrow> filesystem" where
  "Copy p input fs =
     (case fs (Clean p) of
        Some (File c m ow t) \<Rightarrow> fs(Clean p \<mapsto> File (c @ input) m ow None)
      | _ \<Rightarrow> fs)"

text \<open>\<^verbatim>\<open>os.Lchown(path, uid, gid)\<close>: \<^verbatim>\<open>lchown(2)\<close> takes the ids as 32-bit values,
  and the value \<open>-1\<close> (all bits set) leaves an id as it is.\<close>

definition chown_id :: "int \<Rightarrow> 32 word option \<Rightarrow> 32 word option" where
  "chown_id n old = (if (word_of_int n :: 32 word) = - 1 then old else Some (word_of_int n))"

definition Lchown :: "string \<Rightarrow> int \<Rightarrow> int \<Rightarrow> filesystem \<Rightarrow> error option \<times> filesystem" where
  "Lchown p uid gid fs =
     (case Lstat p fs of
        Inl err \<Rightarrow> (Some err, fs)
      | Inr Directory \<Rightarrow> (None, fs)
      | Inr (File c m ow t) \<Rightarrow>
          (None, fs(Clean p \<mapsto> File c m (chown_id uid (fst ow), chown_id gid (snd ow)) t)))"

definition Chtimes :: "string \<Rightarrow> int \<Rightarrow> int \<Rightarrow> filesystem \<Rightarrow> error option \<times> filesystem" where
  "Chtimes p atime mtime fs =
     (case Lstat p fs of
        Inl err \<Rightarrow> (Some err, fs)
      | Inr Directory \<Rightarrow> (None, fs)
      | Inr (File c m ow t) \<Rightarrow> (None, fs(Clean p \<mapsto> File c m ow (Some (atime, mtime)))))"


section \<open>Tar entries\<close>

text \<open>
  What the extractor reads of a \<^verbatim>\<open>tar.Header\<close>. \<open>FileInfo_Mode\<close> is the value of
  \<^verbatim>\<open>header.FileInfo().Mode()\<close>, \<open>Uid\<close> and \<open>Gid\<close> are Go \<^verbatim>\<open>int\<close>s, times are seconds. An entry is a header with the
  bytes the tar reader yields for it; a layer is the list of its entries in stream
  order (a stream that ends with \<^verbatim>\<open>io.EOF\<close>).
\<close>

record Header =
  Name :: string
  Typeflag :: "8 word"
  FileInfo_Mode :: FileMode
  Uid :: int
  Gid :: int
  AccessTime :: int
  ModTime :: int
  Linkname :: string

type_synonym entry = "Header \<times> string"

type_synonym layer = "entry list"

definition TypeReg :: "8 word" where "TypeReg = 0x30"
definition TypeRegA :: "8 word" where "TypeRegA = 0"
definition TypeLink :: "8 word" where "TypeLink = 0x31"
definition TypeSymlink :: "8 word" where "TypeSymlink = 0x32"
definition TypeChar :: "8 word" where "TypeChar = 0x33"
definition TypeBlock :: "8 word" where "TypeBlock = 0x34"
definition TypeDir :: "8 word" where "TypeDir = 0x35"
definition TypeFifo :: "8 word" where "TypeFifo = 0x36"

definition ModeDir :: FileMode where "ModeDir = 0x80000000"
definition ModeSymlink :: FileMode where "ModeSymlink = 0x8000000"

definition whiteoutPrefix :: string where
  "whiteoutPrefix = ''.wh.''"

section \<open>The entry extraction policy\<close>

text \<open>The mode of a created file (\<^verbatim>\<open>extractTarEntry\<close>, lines 163 to 173): the owner
  bits \<^verbatim>\<open>mode & 0700\<close> as an \<^verbatim>\<open>int64\<close>, copied to group and other by the shifts,
  unless \<^verbatim>\<open>mode & 0077\<close> is set.\<close>

definition permMode :: "FileMode \<Rightarrow> FileMode" where
  "permMode mode =
     (let userPermission = (ucast (mode AND 0x1C0) :: 64 word);
          pm = (ucast (userPermission OR signed_drop_bit 3 userPermission
                       OR signed_drop_bit 6 userPermission) :: FileMode)
      in if mode AND 0x3F > 0 then mode else pm)"

text \<open>The mode \<^verbatim>\<open>os.Lstat\<close> reports for a node.\<close>

fun node_Mode :: "node \<Rightarrow> FileMode" where
  "node_Mode Directory = ModeDir"
| "node_Mode (File c m ow t) = m"

definition lchtimes :: "Header \<Rightarrow> string \<Rightarrow> filesystem \<Rightarrow> error option \<times> filesystem" where
  "lchtimes header path fs =
     (let mTime = ModTime header;
          aTime = (if AccessTime header < mTime then mTime else AccessTime header)
      in if Typeflag header = TypeLink then
           (case Lstat (Linkname header) fs of
              Inr fi \<Rightarrow>
                (if node_Mode fi AND ModeSymlink = 0 then Chtimes path aTime mTime fs
                 else (None, fs))
            | Inl _ \<Rightarrow> (None, fs))
         else if Typeflag header \<noteq> TypeSymlink then Chtimes path aTime mTime fs
         else (None, fs))"

text \<open>\<^verbatim>\<open>extractTarEntry\<close>. The host is not Windows (the paths are Unix paths), so the
  owner is restored whenever \<open>shouldChown\<close> is set.\<close>

definition extractTarEntry ::
  "DirImage \<Rightarrow> Header \<Rightarrow> string \<Rightarrow> filesystem \<Rightarrow> error option \<times> filesystem" where
  "extractTarEntry i header input fs =
     (let path = hydrateFilepath i (Name header);
          mode = FileInfo_Mode header
      in case MkdirAll (Dir path) fs of
           (Some err, fs1) \<Rightarrow> (Some err, fs1)
         | (None, fs1) \<Rightarrow>
             if Typeflag header = TypeDir then (None, fs1)
             else if Typeflag header = TypeReg \<or> Typeflag header = TypeRegA then
               (case OpenFile path (permMode mode) (umask i) fs1 of
                  (Some err, fs2) \<Rightarrow> (Some err, fs2)
                | (None, fs2) \<Rightarrow>
                    (case (if shouldChown i
                           then Lchown path (Uid header) (Gid header) (Copy path input fs2)
                           else (None, Copy path input fs2)) of
                       (Some err, fs3) \<Rightarrow> (Some err, fs3)
                     | (None, fs3) \<Rightarrow> lchtimes header path fs3))
             else if Typeflag header = TypeLink \<or> Typeflag header = TypeSymlink then
               (None, fs1)
             else if Typeflag header = TypeChar \<or> Typeflag header = TypeBlock
                     \<or> Typeflag header = TypeFifo then
               (None, fs1)
             else (Some (UnsupportedEntry (Typeflag header) (Name header)), fs1))"

section \<open>The layer stream processor\<close>

function inWhiteoutDir :: "(string \<Rightarrow> bool option) \<Rightarrow> string \<Rightarrow> bool" where
  "inWhiteoutDir fileMap file =
     (if file = [] then False
      else if file = Dir file then False
      else if fileMap (Dir file) = Some True then True
      else inWhiteoutDir fileMap (Dir file))"
  by pat_completeness auto
termination
  by (relation "measure (\<lambda>(fileMap, file). path_measure file)") (auto simp: Dir_measure)

declare inWhiteoutDir.simps [simp del]

text \<open>\<^verbatim>\<open>writeLayer\<close>: the loop over the entries of one layer. It returns the error,
  the deletion map and the file system. A failed removal for a whiteout returns
  \<^verbatim>\<open>nil\<close> at once (line 109).\<close>

fun writeLayer ::
  "DirImage \<Rightarrow> (string \<Rightarrow> bool option) \<Rightarrow> layer \<Rightarrow> filesystem
     \<Rightarrow> error option \<times> (string \<Rightarrow> bool option) \<times> filesystem" where
  "writeLayer i fileMap [] fs = (None, fileMap, fs)"
| "writeLayer i fileMap ((hdr, input) # stream) fs =
     (let path = hydrateFilepath i (Name hdr);
          base = Base path
      in if HasPrefix base whiteoutPrefix then
           (case RemoveAll (Join [Dir path, TrimPrefix base whiteoutPrefix]) fs of
              (Some err, fs1) \<Rightarrow> (None, fileMap, fs1)
            | (None, fs1) \<Rightarrow> writeLayer i (fileMap(base \<mapsto> True)) stream fs1)
         else if inWhiteoutDir fileMap path then writeLayer i fileMap stream fs
         else
           (case
              (case Lstat path fs of
                 Inr fi \<Rightarrow>
                   (if IsDir fi \<and> Name hdr = ''.'' then (None, True, fs)
                    else if \<not> (IsDir fi \<and> Typeflag hdr = TypeDir) then
                      (case RemoveAll path fs of (err, fs1) \<Rightarrow> (err, False, fs1))
                    else (None, False, fs))
               | Inl _ \<Rightarrow> (None, False, fs)) of
              (Some err, skip, fs1) \<Rightarrow> (Some err, fileMap, fs1)
            | (None, True, fs1) \<Rightarrow> writeLayer i fileMap stream fs1
            | (None, False, fs1) \<Rightarrow>
                (case extractTarEntry i hdr input fs1 of
                   (Some err, fs2) \<Rightarrow> (Some err, fileMap(Name hdr \<mapsto> True), fs2)
                 | (None, fs2) \<Rightarrow> writeLayer i (fileMap(Name hdr \<mapsto> True)) stream fs2)))"

section \<open>The overlay resolver\<close>

text \<open>The loop of \<^verbatim>\<open>AsDirectory\<close> over the layers, here in the order it visits them
  (the last layer of the image first); it stops at the first error.\<close>

fun writeLayers ::
  "DirImage \<Rightarrow> (string \<Rightarrow> bool option) \<Rightarrow> layer list \<Rightarrow> filesystem
     \<Rightarrow> error option \<times> filesystem" where
  "writeLayers i fileMap [] fs = (None, fs)"
| "writeLayers i fileMap (imgLayer # rest) fs =
     (case writeLayer i fileMap imgLayer fs of
        (Some err, fileMap1, fs1) \<Rightarrow> (Some err, fs1)
      | (None, fileMap1, fs1) \<Rightarrow> writeLayers i fileMap1 rest fs1)"

text \<open>\<^verbatim>\<open>AsDirectory\<close>: \<open>layers\<close> is what \<^verbatim>\<open>img.Layers()\<close> returns, the base layer
  first.\<close>

definition AsDirectory ::
  "DirImage \<Rightarrow> layer list \<Rightarrow> filesystem \<Rightarrow> error option \<times> filesystem" where
  "AsDirectory i layers fs =
     (case RemoveAll (dirPath i) fs of
        (Some err, fs1) \<Rightarrow> (Some (RemovingOutputDirectory err), fs1)
      | (None, fs1) \<Rightarrow>
          (case MkdirAll (dirPath i) fs1 of
             (Some err, fs2) \<Rightarrow> (Some (CreatingOutputDirectory err), fs2)
           | (None, fs2) \<Rightarrow> writeLayers i Map.empty (rev layers) fs2))"



section \<open>Entries and the paths they act on\<close>

text \<open>
  Names for what \<open>writeLayer\<close> computes from an entry, used to state what a run does
  with one entry among the others. An entry is named like a whiteout when the test of
  line 104 holds for it; such an entry removes \<open>removal_target\<close> (line 107) and records
  its base name in the deletion map (line 111). Any other entry acts on its own path and
  records its name as written in the tar header (line 131).
\<close>

definition whiteout_named :: "DirImage \<Rightarrow> Header \<Rightarrow> bool" where
  "whiteout_named i hdr = HasPrefix (Base (hydrateFilepath i (Name hdr))) whiteoutPrefix"

definition removal_target :: "DirImage \<Rightarrow> Header \<Rightarrow> string" where
  "removal_target i hdr =
     Join [Dir (hydrateFilepath i (Name hdr)),
           TrimPrefix (Base (hydrateFilepath i (Name hdr))) whiteoutPrefix]"


definition recorded :: "DirImage \<Rightarrow> Header \<Rightarrow> string" where
  "recorded i hdr =
     (if whiteout_named i hdr then Base (hydrateFilepath i (Name hdr)) else Name hdr)"


text \<open>The keys that \<open>inWhiteoutDir\<close> looks up in the deletion map for a path: the
  values of \<^verbatim>\<open>dirname\<close> in its loop, in the order of the lookups.\<close>

function dirnames :: "string \<Rightarrow> string list" where
  "dirnames file =
     (if file = [] \<or> file = Dir file then [] else Dir file # dirnames (Dir file))"
  by pat_completeness auto
termination
  by (relation "measure path_measure") (auto simp: Dir_measure)

declare dirnames.simps [simp del]

text \<open>Lines 120 to 129 of \<open>writeLayer\<close> for an entry that is not skipped as the
  placeholder \<^verbatim>\<open>.\<close>: what is at the entry's path is removed, unless it is a directory
  and the entry is a directory entry.\<close>

definition type_transition ::
  "DirImage \<Rightarrow> Header \<Rightarrow> filesystem \<Rightarrow> error option \<times> filesystem" where
  "type_transition i hdr fs =
     (case Lstat (hydrateFilepath i (Name hdr)) fs of
        Inr fi \<Rightarrow>
          (if \<not> (IsDir fi \<and> Typeflag hdr = TypeDir)
           then RemoveAll (hydrateFilepath i (Name hdr)) fs
           else (None, fs))
      | Inl _ \<Rightarrow> (None, fs))"

section \<open>Containment and example inputs\<close>

text \<open>A path is within the destination root when it is the cleaned root or has the
  cleaned root among its proper ancestors.\<close>

definition within_root :: "string \<Rightarrow> string \<Rightarrow> bool" where
  "within_root root p = (p = Clean root \<or> Clean root \<in> set (parents p))"

text \<open>The inputs of the closed examples: the destination \<^verbatim>\<open>/out\<close> in a process with
  the usual mask octal 022 (\<open>0x12\<close>), a file system that holds the root directory only,
  and a tar entry with owner and times zero.\<close>

definition out_image :: DirImage where
  "out_image = \<lparr>dirPath = ''/out'', shouldChown = False, umask = 0x12\<rparr>"

definition root_only :: filesystem where
  "root_only = [[sep] \<mapsto> Directory]"

definition out_dir_fs :: filesystem where
  "out_dir_fs = [[sep] \<mapsto> Directory, ''/out'' \<mapsto> Directory]"

definition tar_header :: "string \<Rightarrow> 8 word \<Rightarrow> FileMode \<Rightarrow> Header" where
  "tar_header n ty m =
     \<lparr>Name = n, Typeflag = ty, FileInfo_Mode = m, Uid = 0, Gid = 0,
       AccessTime = 0, ModTime = 0, Linkname = []\<rparr>"

definition tar_entry :: "string \<Rightarrow> 8 word \<Rightarrow> FileMode \<Rightarrow> string \<Rightarrow> entry" where
  "tar_entry n ty m c = (tar_header n ty m, c)"

section \<open>Facts about path cleaning\<close>

text \<open>The elements of an entry name: the pieces between separators, where a
  backslash separates as well as a slash (a name with a backslash is split at the
  backslashes by \<open>hydrateFilepath\<close> and at the slashes by \<open>Clean\<close>).\<close>

definition name_elements :: "string \<Rightarrow> string list" where
  "name_elements fPath = concat (map (\<lambda>s. Split s sep) (Split fPath backslash))"

text \<open>The elements \<open>Clean\<close> keeps when no \<^verbatim>\<open>..\<close> is present.\<close>

definition kept :: "string \<Rightarrow> bool" where
  "kept e = (e \<noteq> [] \<and> e \<noteq> ''.'')"

lemma clean_elems_no_dotdot:
  "''..'' \<notin> set es \<Longrightarrow> clean_elems r out es = rev (filter kept es) @ out"
  by (induction es arbitrary: out) (auto simp: kept_def)

lemma clean_elems_append:
  "clean_elems r out (xs @ ys) = clean_elems r (clean_elems r out xs) ys"
  by (induction xs arbitrary: out) (auto split: list.splits)

lemma Split_append_sep: "Split (a @ c # b) c = Split a c @ Split b c"
proof (induction a)
  case Nil
  show ?case by simp
next
  case (Cons x xs)
  obtain y ys where "Split xs c = y # ys"
    using Split_not_Nil [of xs c] by (cases "Split xs c") auto
  with Cons show ?case by simp
qed

lemma Split_no_sep: "c \<notin> set s \<Longrightarrow> Split s c = [s]"
  by (induction s) auto

lemma Split_elems_no_sep: "e \<in> set (Split s c) \<Longrightarrow> c \<notin> set e"
proof (induction s arbitrary: e)
  case Nil
  then show ?case by simp
next
  case (Cons x xs)
  obtain y ys where sp: "Split xs c = y # ys"
    using Split_not_Nil [of xs c] by (cases "Split xs c") auto
  have y: "c \<notin> set y" and ys: "\<And>z. z \<in> set ys \<Longrightarrow> c \<notin> set z"
    using Cons.IH sp by auto
  show ?case
  proof (cases "x = c")
    case True
    with Cons.prems sp y ys show ?thesis by auto
  next
    case False
    with Cons.prems sp y ys show ?thesis by auto
  qed
qed

lemma Split_strings_Join:
  "xs \<noteq> [] \<Longrightarrow> Split (strings_Join xs [c]) c = concat (map (\<lambda>s. Split s c) xs)"
proof (induction xs "[c]" rule: strings_Join.induct)
  case 1
  then show ?case by simp
next
  case (2 x)
  show ?case by simp
next
  case (3 x y ys)
  then show ?case using Split_append_sep [of x c "strings_Join (y # ys) [c]"] by simp
qed

lemma Split_strings_Join_id:
  assumes "xs \<noteq> []" and "\<And>e. e \<in> set xs \<Longrightarrow> c \<notin> set e"
  shows "Split (strings_Join xs [c]) c = xs"
proof -
  have "concat (map (\<lambda>s. Split s c) xs) = concat (map (\<lambda>s. [s]) xs)"
    using assms(2) by (intro arg_cong [where f = concat] map_cong) (auto simp: Split_no_sep)
  also have "\<dots> = xs" by (induction xs) auto
  finally show ?thesis using Split_strings_Join [OF assms(1), of c] by simp
qed

lemma strings_Join_append:
  "xs \<noteq> [] \<Longrightarrow> ys \<noteq> [] \<Longrightarrow>
     strings_Join (xs @ ys) [c] = strings_Join xs [c] @ c # strings_Join ys [c]"
proof (induction xs "[c]" rule: strings_Join.induct)
  case 1
  then show ?case by simp
next
  case (2 x)
  then show ?case by (cases ys) auto
next
  case (3 x y zs)
  then show ?case by simp
qed

lemma strings_Join_nonempty:
  "xs \<noteq> [] \<Longrightarrow> hd xs \<noteq> [] \<Longrightarrow> strings_Join xs [c] \<noteq> []"
  by (induction xs "[c]" rule: strings_Join.induct) auto

lemma parents_append_sep:
  assumes "r \<noteq> []"
  shows "r \<in> set (parents (r @ sep # x))"
proof -
  let ?p = "r @ sep # x"
  let ?k = "length r"
  have "1 \<le> ?k" using assms by (cases r) auto
  moreover have "?k < length ?p" by simp
  moreover have "?p ! ?k = sep" by simp
  ultimately have k: "?k \<in> set (filter (\<lambda>k. ?p ! k = sep) [1..<length ?p])" by auto
  have "r = take ?k ?p" by simp
  then have "r \<in> (\<lambda>k. take k ?p) ` set (filter (\<lambda>k. ?p ! k = sep) [1..<length ?p])"
    using k by (rule image_eqI)
  then have m: "r \<in> set (map (\<lambda>k. take k ?p) (filter (\<lambda>k. ?p ! k = sep) [1..<length ?p]))"
    unfolding set_map by simp
  show ?thesis
    apply (subst parents_def)
    apply (subst set_append)
    apply (rule UnI2)
    apply (rule m)
    done
qed

lemma parents_root:
  assumes "x \<noteq> []"
  shows "[sep] \<in> set (parents (sep # x))"
  using assms by (cases x) (auto simp: parents_def)


lemma Join_eq:
  "Join es = (case dropWhile (\<lambda>e. e = []) es of
                [] \<Rightarrow> []
              | e # es' \<Rightarrow> Clean (strings_Join (e # es') [sep]))"
  by (induction es) auto

lemma sep_not_dot: "sep \<noteq> CHR ''.''"
  by (simp add: sep_def)

lemma Clean_no_dotdot:
  assumes "p \<noteq> []" and "''..'' \<notin> set (Split p sep)"
  shows "Clean p =
     (if hd p = sep then sep # strings_Join (filter kept (Split p sep)) [sep]
      else if filter kept (Split p sep) = [] then ''.''
      else strings_Join (filter kept (Split p sep)) [sep])"
  using assms by (simp add: Clean_def Let_def clean_elems_no_dotdot)

lemma filter_kept_Split_id:
  "filter kept (Split p sep) \<noteq> [] \<Longrightarrow>
     Split (strings_Join (filter kept (Split p sep)) [sep]) sep = filter kept (Split p sep)"
  by (rule Split_strings_Join_id) (auto dest: Split_elems_no_sep)

lemma Split_Clean_no_dotdot:
  assumes "''..'' \<notin> set (Split p sep)"
  shows "''..'' \<notin> set (Split (Clean p) sep)"
proof (cases "p = []")
  case True
  then show ?thesis by (simp add: Clean_def sep_def)
next
  case False
  let ?fs = "filter kept (Split p sep)"
  have nd: "''..'' \<notin> set ?fs" using assms by auto
  show ?thesis
  proof (cases "?fs = []")
    case True
    then show ?thesis using Clean_no_dotdot [OF False assms] by (auto simp: sep_def)
  next
    case ne: False
    from filter_kept_Split_id [OF ne] nd show ?thesis
      using Clean_no_dotdot [OF False assms] ne by auto
  qed
qed

lemma concat_Split_subset:
  "set (concat (map (\<lambda>s. Split s c) (dropWhile P es))) \<subseteq> set (concat (map (\<lambda>s. Split s c) es))"
  using set_dropWhileD [of _ P es] by auto

lemma Split_Join_no_dotdot:
  assumes "''..'' \<notin> set (concat (map (\<lambda>s. Split s sep) es))"
  shows "''..'' \<notin> set (Split (Join es) sep)"
proof (cases "dropWhile (\<lambda>e. e = []) es")
  case Nil
  show ?thesis unfolding Join_eq Nil by simp
next
  case (Cons e es')
  have "Split (strings_Join (e # es') [sep]) sep = concat (map (\<lambda>s. Split s sep) (e # es'))"
    by (rule Split_strings_Join) simp
  moreover have "set (concat (map (\<lambda>s. Split s sep) (e # es')))
      \<subseteq> set (concat (map (\<lambda>s. Split s sep) es))"
    using concat_Split_subset [of sep "\<lambda>e. e = []" es] Cons by simp
  ultimately have "''..'' \<notin> set (Split (strings_Join (e # es') [sep]) sep)"
    using assms by auto
  then have "''..'' \<notin> set (Split (Clean (strings_Join (e # es') [sep])) sep)"
    by (rule Split_Clean_no_dotdot)
  then show ?thesis unfolding Join_eq Cons by simp
qed

lemma concat_Split_Split: "concat (map (\<lambda>s. Split s c) (Split p c)) = Split p c"
proof -
  have "concat (map (\<lambda>s. Split s c) (Split p c)) = concat (map (\<lambda>s. [s]) (Split p c))"
    by (intro arg_cong [where f = concat] map_cong)
       (auto simp: Split_no_sep dest: Split_elems_no_sep)
  also have "\<dots> = Split p c" by (induction "Split p c") auto
  finally show ?thesis .
qed

lemma lPath_no_dotdot:
  assumes "''..'' \<notin> set (name_elements fPath)"
  shows "''..'' \<notin> set (Split (if backslash \<in> set fPath then Join (Split fPath backslash)
                                 else Join (Split fPath sep)) sep)"
proof (cases "backslash \<in> set fPath")
  case True
  with assms show ?thesis using Split_Join_no_dotdot [of "Split fPath backslash"]
    by (simp add: name_elements_def)
next
  case False
  then have "name_elements fPath = Split fPath sep"
    by (simp add: name_elements_def Split_no_sep)
  with assms False show ?thesis using Split_Join_no_dotdot [of "Split fPath sep"]
    by (simp add: concat_Split_Split)
qed

subsection \<open>Cleaning a cleaned path\<close>

text \<open>What \<open>clean_elems\<close> leaves on the stack: ordinary elements above kept \<^verbatim>\<open>..\<close>
  elements, the latter only in a relative path.\<close>

definition clean_stack :: "bool \<Rightarrow> string list \<Rightarrow> bool" where
  "clean_stack rooted st =
     (\<exists>k ns. st = rev ns @ replicate k ''..''
        \<and> (\<forall>e\<in>set ns. kept e \<and> e \<noteq> ''..'' \<and> sep \<notin> set e) \<and> (rooted \<longrightarrow> k = 0))"

lemma clean_stack_Nil: "clean_stack r []"
  unfolding clean_stack_def by (rule exI [of _ 0], rule exI [of _ "[]"]) simp

lemma clean_stack_step:
  assumes "clean_stack r st" and "sep \<notin> set e"
  shows "clean_stack r (clean_elems r st [e])"
proof -
  from assms(1) obtain k ns where st: "st = rev ns @ replicate k ''..''"
    and ns: "\<forall>e\<in>set ns. kept e \<and> e \<noteq> ''..'' \<and> sep \<notin> set e" and r: "r \<longrightarrow> k = 0"
    unfolding clean_stack_def by blast
  show ?thesis
  proof (cases "e = [] \<or> e = ''.''")
    case True
    then show ?thesis using assms(1) by auto
  next
    case False
    show ?thesis
    proof (cases "e = ''..''")
      case dd: True
      show ?thesis
      proof (cases ns rule: rev_cases)
        case Nil
        then have st': "st = replicate k ''..''" using st by simp
        show ?thesis
        proof (cases r)
          case True
          with r st' have "st = []" by simp
          with dd True show ?thesis using clean_stack_Nil by simp
        next
          case nr: False
          have "clean_elems r st [e] = replicate (Suc k) ''..''"
            using dd nr st' by (cases k) auto
          moreover have "clean_stack r (replicate (Suc k) ''..'')"
            unfolding clean_stack_def using nr
            by (intro exI [of _ "Suc k"] exI [of _ "[]"]) simp
          ultimately show ?thesis by simp
        qed
      next
        case (snoc ns' x)
        then have st': "st = x # rev ns' @ replicate k ''..''" using st by simp
        have x: "x \<noteq> ''..''" using ns snoc by simp
        have "clean_elems r st [e] = rev ns' @ replicate k ''..''"
          using dd st' x by simp
        moreover have "clean_stack r (rev ns' @ replicate k ''..'')"
          unfolding clean_stack_def using ns snoc r
          by (intro exI [of _ k] exI [of _ ns']) simp
        ultimately show ?thesis by simp
      qed
    next
      case nd: False
      have "clean_elems r st [e] = rev (ns @ [e]) @ replicate k ''..''"
        using False nd st by simp
      moreover have "clean_stack r (rev (ns @ [e]) @ replicate k ''..'')"
        unfolding clean_stack_def using ns r False nd assms(2)
        by (intro exI [of _ k] exI [of _ "ns @ [e]"]) (auto simp: kept_def)
      ultimately show ?thesis by simp
    qed
  qed
qed

lemma clean_elems_Cons: "clean_elems r st (e # es) = clean_elems r (clean_elems r st [e]) es"
  using clean_elems_append [of r st "[e]" es] by simp

lemma clean_stack_clean_elems:
  "clean_stack r st \<Longrightarrow> (\<And>e. e \<in> set es \<Longrightarrow> sep \<notin> set e) \<Longrightarrow> clean_stack r (clean_elems r st es)"
proof (induction es arbitrary: st)
  case Nil
  then show ?case by simp
next
  case (Cons e es)
  have "clean_stack r (clean_elems r st [e])"
    using Cons.prems by (intro clean_stack_step) auto
  then have "clean_stack r (clean_elems r (clean_elems r st [e]) es)"
    using Cons.prems(2) by (intro Cons.IH) auto
  then show ?case by (subst clean_elems_Cons)
qed

lemma clean_elems_dotdots:
  "clean_elems False (replicate j ''..'') (replicate k ''..'' @ ns)
     = clean_elems False (replicate (j + k) ''..'') ns"
proof (induction k arbitrary: j)
  case 0
  show ?case by simp
next
  case (Suc k)
  have "clean_elems False (replicate j ''..'') (''..'' # replicate k ''..'' @ ns)
      = clean_elems False (replicate (Suc j) ''..'') (replicate k ''..'' @ ns)"
    by (cases j) auto
  then show ?case using Suc [of "Suc j"] by simp
qed

lemma clean_elems_replay:
  assumes "clean_stack r st"
  shows "clean_elems r [] (rev st) = st"
proof -
  from assms obtain k ns where st: "st = rev ns @ replicate k ''..''"
    and ns: "\<forall>e\<in>set ns. kept e \<and> e \<noteq> ''..'' \<and> sep \<notin> set e" and r: "r \<longrightarrow> k = 0"
    unfolding clean_stack_def by blast
  have nd: "''..'' \<notin> set ns" using ns by auto
  have f: "filter kept ns = ns" using ns by (auto intro: filter_True)
  show ?thesis
  proof (cases r)
    case True
    with r st have "st = rev ns" by simp
    then show ?thesis using clean_elems_no_dotdot [OF nd, of r "[]"] f by simp
  next
    case False
    have "clean_elems False [] (rev st) = clean_elems False (replicate 0 ''..'') (replicate k ''..'' @ ns)"
      using st by simp
    also have "\<dots> = clean_elems False (replicate k ''..'') ns"
      using clean_elems_dotdots [of 0 k ns] by simp
    also have "\<dots> = rev ns @ replicate k ''..''"
      using clean_elems_no_dotdot [OF nd, of False "replicate k ''..''"] f by simp
    finally show ?thesis using False st by simp
  qed
qed

lemma clean_stack_elems:
  assumes "clean_stack r st" and "e \<in> set st"
  shows "e \<noteq> [] \<and> sep \<notin> set e"
proof -
  from assms(1) obtain k ns where st: "st = rev ns @ replicate k ''..''"
    and ns: "\<forall>e\<in>set ns. kept e \<and> e \<noteq> ''..'' \<and> sep \<notin> set e"
    unfolding clean_stack_def by blast
  have dd: "''..'' \<noteq> [] \<and> sep \<notin> set ''..''" by (simp add: sep_def)
  from assms(2) st have "e \<in> set ns \<or> e = ''..''" by auto
  then show ?thesis
  proof
    assume "e \<in> set ns"
    with ns have "kept e" "sep \<notin> set e" by auto
    then show ?thesis by (simp add: kept_def)
  next
    assume "e = ''..''"
    with dd show ?thesis by simp
  qed
qed

lemma hd_strings_Join:
  "xs \<noteq> [] \<Longrightarrow> hd xs \<noteq> [] \<Longrightarrow> hd (strings_Join xs [c]) = hd (hd xs)"
  by (induction xs "[c]" rule: strings_Join.induct) auto

lemma Clean_idem: "Clean (Clean x) = Clean x"
proof (cases "x = []")
  case True
  then show ?thesis by (simp add: Clean_def sep_def)
next
  case False
  let ?r = "hd x = sep"
  let ?st = "clean_elems ?r [] (Split x sep)"
  have cs: "clean_stack ?r ?st"
    by (rule clean_stack_clean_elems [OF clean_stack_Nil]) (rule Split_elems_no_sep)
  have el: "\<And>e. e \<in> set (rev ?st) \<Longrightarrow> sep \<notin> set e"
    using clean_stack_elems [OF cs] by simp
  have replay: "clean_elems ?r [] (rev ?st) = ?st" using cs by (rule clean_elems_replay)
  show ?thesis
  proof (cases "?st = []")
    case True
    then show ?thesis using False by (cases ?r) (auto simp: Clean_def sep_def)
  next
    case ne: False
    then have ne': "rev ?st \<noteq> []" by simp
    have sp: "Split (strings_Join (rev ?st) [sep]) sep = rev ?st"
      using ne' el by (rule Split_strings_Join_id)
    have hdne: "hd (rev ?st) \<noteq> []" and hdsep: "sep \<notin> set (hd (rev ?st))"
      using clean_stack_elems [OF cs, of "hd (rev ?st)"] ne' hd_in_set [OF ne'] by auto
    have jne: "strings_Join (rev ?st) [sep] \<noteq> []"
      using ne' hdne by (rule strings_Join_nonempty)
    show ?thesis
    proof (cases ?r)
      case True
      have c: "Clean x = sep # strings_Join (rev ?st) [sep]"
        using False True by (simp add: Clean_def Let_def)
      have "Split (sep # strings_Join (rev ?st) [sep]) sep = [] # rev ?st"
        using sp by simp
      then have "clean_elems True [] (Split (sep # strings_Join (rev ?st) [sep]) sep) = ?st"
        using replay True by simp
      then show ?thesis unfolding c by (simp add: Clean_def Let_def)
    next
      case nr: False
      have c: "Clean x = strings_Join (rev ?st) [sep]"
        using False nr ne by (simp add: Clean_def Let_def)
      have "hd (strings_Join (rev ?st) [sep]) = hd (hd (rev ?st))"
        using ne' hdne by (rule hd_strings_Join)
      moreover have "hd (hd (rev ?st)) \<in> set (hd (rev ?st))" using hdne by simp
      ultimately have h: "hd (strings_Join (rev ?st) [sep]) \<noteq> sep" using hdsep by auto
      have "clean_elems False [] (Split (strings_Join (rev ?st) [sep]) sep) = ?st"
        using replay nr sp by simp
      then show ?thesis unfolding c using h jne ne nr by (simp add: Clean_def Let_def)
    qed
  qed
qed

lemma Clean_not_Nil: "Clean x \<noteq> []"
proof (cases "x = []")
  case True
  then show ?thesis by (simp add: Clean_def)
next
  case False
  let ?r = "hd x = sep"
  let ?st = "clean_elems ?r [] (Split x sep)"
  have cs: "clean_stack ?r ?st"
    by (rule clean_stack_clean_elems [OF clean_stack_Nil]) (rule Split_elems_no_sep)
  show ?thesis
  proof (cases "?r \<or> ?st = []")
    case True
    then show ?thesis using False by (auto simp: Clean_def Let_def)
  next
    case nr: False
    then have "?st \<noteq> []" by blast
    then have ne: "rev ?st \<noteq> []" unfolding rev_is_Nil_conv .
    have "hd (rev ?st) \<noteq> []"
      using clean_stack_elems [OF cs, of "hd (rev ?st)"] hd_in_set [OF ne] by simp
    with ne have "strings_Join (rev ?st) [sep] \<noteq> []" by (rule strings_Join_nonempty)
    then show ?thesis using False nr by (simp add: Clean_def Let_def)
  qed
qed

lemma length_Clean_le:
  assumes "x \<noteq> []"
  shows "length (Clean x) \<le> length x"
proof -
  let ?r = "hd x = sep"
  let ?out = "rev (clean_elems ?r [] (Split x sep))"
  have sz: "elems_size ?out \<le> elems_weight (Split x sep)"
    using clean_elems_size [of ?r "[]" "Split x sep"] by (simp add: elems_size_rev elems_size_Nil)
  have j: "length (strings_Join ?out [sep]) \<le> elems_size ?out - 1"
    by (rule length_strings_Join)
  have one: "1 \<le> length x" using assms by (cases x) auto
  show ?thesis
  proof (cases ?r)
    case True
    then obtain x' where x: "x = sep # x'" using assms by (cases x) auto
    have "elems_weight (Split x sep) = elems_weight (Split x' sep)"
      using x by (simp add: elems_weight_def)
    also have "\<dots> \<le> Suc (length x')"
      using elems_weight_le_size [of "Split x' sep"] by (simp add: elems_size_Split)
    finally have "elems_size ?out \<le> length x" using sz x by simp
    with j one have "Suc (length (strings_Join ?out [sep])) \<le> length x" by linarith
    moreover have "Clean x = sep # strings_Join ?out [sep]"
      using assms True by (simp add: Clean_def Let_def)
    ultimately show ?thesis by simp
  next
    case False
    have "elems_weight (Split x sep) \<le> Suc (length x)"
      using elems_weight_le_size [of "Split x sep"] by (simp add: elems_size_Split)
    with sz j have "length (strings_Join ?out [sep]) \<le> length x" by linarith
    moreover have "Clean x = (if ?out = [] then ''.'' else strings_Join ?out [sep])"
      using assms False by (simp add: Clean_def Let_def)
    ultimately show ?thesis using one by (auto split: if_splits)
  qed
qed

lemma Clean_Dir: "Clean (Dir p) = Dir p"
  by (simp add: Dir_def Clean_idem)

lemma Clean_Join: "Join es \<noteq> [] \<Longrightarrow> Clean (Join es) = Join es"
  by (induction es) (auto simp: Clean_idem)

lemma Clean_hydrateFilepath:
  "hydrateFilepath i fPath \<noteq> [] \<Longrightarrow> Clean (hydrateFilepath i fPath) = hydrateFilepath i fPath"
  unfolding hydrateFilepath_def Let_def by (rule Clean_Join)

section \<open>Facts about the file system operations\<close>

lemma Mkdir_cases:
  assumes "Mkdir p fs = (e, fs')"
  shows "(e \<noteq> None \<and> fs' = fs) \<or>
         (e = None \<and> fs' = fs(Clean p \<mapsto> Directory) \<and> fs (Clean p) = None \<and> p \<noteq> []
            \<and> \<not> below_file fs (Clean p))"
  using assms by (auto simp: Mkdir_def split: if_splits)

lemma Lstat_Inr:
  "Lstat p fs = Inr n \<longleftrightarrow> p \<noteq> [] \<and> \<not> below_file fs (Clean p) \<and> fs (Clean p) = Some n"
  by (auto simp: Lstat_def split: option.splits)

lemma MkdirAll_unfold:
  "MkdirAll path fs =
     (case Lstat path fs of
        Inr fi \<Rightarrow> (if IsDir fi then (None, fs) else (Some ENOTDIR, fs))
      | Inl _ \<Rightarrow>
          (if 1 < length (dropWhile (\<lambda>c. c \<noteq> sep) (dropWhile (\<lambda>c. c = sep) (rev path))) then
                (case MkdirAll (take (length (dropWhile (\<lambda>c. c \<noteq> sep) (dropWhile (\<lambda>c. c = sep) (rev path))) - 1) path) fs of
                   (Some err, fs1) \<Rightarrow> (Some err, fs1)
                 | (None, fs1) \<Rightarrow> Mkdir path fs1)
              else Mkdir path fs))"
  by (subst MkdirAll.simps, unfold Let_def, rule refl)

lemma MkdirAll_dir:
  "MkdirAll p fs = (None, fs') \<Longrightarrow> fs' (Clean p) = Some Directory"
proof (induction p fs arbitrary: fs' rule: MkdirAll.induct)
  case (1 path fs)
  show ?case
  proof (cases "Lstat path fs")
    case (Inr fi)
    with "1.prems" show ?thesis
      by (auto simp: MkdirAll_unfold [of path fs] Lstat_Inr IsDir_def split: if_splits)
  next
    case (Inl x)
    with "1.prems" show ?thesis
      by (auto simp: MkdirAll_unfold [of path fs] split: if_splits prod.splits option.splits
          dest!: Mkdir_cases)
  qed
qed

lemma MkdirAll_changes:
  "MkdirAll p fs = (e, fs') \<Longrightarrow> fs' q \<noteq> fs q \<Longrightarrow>
     fs q = None \<and> fs' q = Some Directory \<and> (\<exists>p'. p' \<noteq> [] \<and> prefix p' p \<and> q = Clean p')"
proof (induction p fs arbitrary: e fs' q rule: MkdirAll.induct)
  case (1 path fs)
  let ?j = "length (dropWhile (\<lambda>c. c \<noteq> sep) (dropWhile (\<lambda>c. c = sep) (rev path)))"
  let ?R = "\<lambda>fsa fsb q p. fsa q = None \<and> fsb q = Some Directory
               \<and> (\<exists>p'. p' \<noteq> [] \<and> prefix p' p \<and> q = Clean p')"
  have mk: "?R fsa fsb q path" if m: "Mkdir path fsa = (e', fsb)" and ch: "fsb q \<noteq> fsa q"
    for fsa fsb e' q
  proof -
    from Mkdir_cases [OF m] ch
    have a: "fsb = fsa(Clean path \<mapsto> Directory)" "fsa (Clean path) = None" "path \<noteq> []"
      by auto
    with ch have "q = Clean path" by (auto split: if_splits)
    with a show ?thesis by auto
  qed
  show ?case
  proof (cases "Lstat path fs")
    case (Inr fi)
    with "1.prems" show ?thesis
      by (auto simp: MkdirAll_unfold [of path fs] split: if_splits)
  next
    case (Inl x)
    show ?thesis
    proof (cases "1 < ?j")
      case False
      with Inl "1.prems" have "Mkdir path fs = (e, fs')"
        by (simp add: MkdirAll_unfold [of path fs])
      from mk [OF this "1.prems"(2)] show ?thesis .
    next
      case True
      obtain e1 fs1 where r: "MkdirAll (take (?j - 1) path) fs = (e1, fs1)"
        by (cases "MkdirAll (take (?j - 1) path) fs") auto
      have IH0: "\<And>q. fs1 q \<noteq> fs q \<Longrightarrow> ?R fs fs1 q (take (?j - 1) path)"
        using "1.IH" [OF Inl refl True r] by simp
      have IH: "?R fs fs1 q path" if "fs1 q \<noteq> fs q" for q
      proof -
        from IH0 [OF that] obtain p' where p': "fs q = None" "fs1 q = Some Directory"
          "p' \<noteq> []" "prefix p' (take (?j - 1) path)" "q = Clean p'" by blast
        from p'(4) have "prefix p' path"
          using take_is_prefix prefix_order.order_trans by blast
        with p' show ?thesis by blast
      qed
      show ?thesis
      proof (cases e1)
        case (Some err)
        with Inl True r "1.prems" have "fs' = fs1"
          by (simp add: MkdirAll_unfold [of path fs])
        with IH "1.prems"(2) show ?thesis by blast
      next
        case None
        with Inl True r "1.prems" have m: "Mkdir path fs1 = (e, fs')"
          by (simp add: MkdirAll_unfold [of path fs])
        show ?thesis
        proof (cases "fs' q = fs1 q")
          case True
          with "1.prems"(2) have "fs1 q \<noteq> fs q" by simp
          from IH [OF this] True show ?thesis by simp
        next
          case False
          from mk [OF m False] have a: "fs1 q = None" "fs' q = Some Directory"
            "\<exists>p'. p' \<noteq> [] \<and> prefix p' path \<and> q = Clean p'" by blast+
          have "fs q = None"
          proof (rule ccontr)
            assume "fs q \<noteq> None"
            with a(1) have "fs1 q \<noteq> fs q" by auto
            from IH [OF this] \<open>fs q \<noteq> None\<close> show False by simp
          qed
          with a show ?thesis by blast
        qed
      qed
    qed
  qed
qed

lemma MkdirAll_keeps:
  assumes "MkdirAll p fs = (e, fs')" and "fs q = Some n"
  shows "fs' q = Some n"
proof (rule ccontr)
  assume "fs' q \<noteq> Some n"
  with assms(2) have "fs' q \<noteq> fs q" by simp
  from MkdirAll_changes [OF assms(1) this] assms(2) show False by simp
qed

lemma MkdirAll_below_file:
  assumes "MkdirAll p fs = (e, fs')" and "below_file fs x"
  shows "below_file fs' x"
proof -
  from assms(2) obtain q where q: "q \<in> set (parents x)" "is_file (fs q)"
    by (auto simp: below_file_def list_ex_iff)
  from q(2) obtain n where "fs q = Some n" by (cases "fs q") auto
  from MkdirAll_keeps [OF assms(1) this] \<open>fs q = Some n\<close> q(2) have "is_file (fs' q)" by simp
  with q(1) show ?thesis unfolding below_file_def list_ex_iff by blast
qed

lemma Typeflags_distinct:
  "TypeDir \<noteq> TypeReg" "TypeDir \<noteq> TypeRegA" "TypeDir \<noteq> TypeLink" "TypeDir \<noteq> TypeSymlink"
  "TypeDir \<noteq> TypeChar" "TypeDir \<noteq> TypeBlock" "TypeDir \<noteq> TypeFifo"
  "TypeReg \<noteq> TypeLink" "TypeReg \<noteq> TypeSymlink" "TypeRegA \<noteq> TypeLink" "TypeRegA \<noteq> TypeSymlink"
  "TypeReg \<noteq> TypeChar" "TypeReg \<noteq> TypeBlock" "TypeReg \<noteq> TypeFifo"
  "TypeRegA \<noteq> TypeChar" "TypeRegA \<noteq> TypeBlock" "TypeRegA \<noteq> TypeFifo"
  by (simp_all add: TypeDir_def TypeReg_def TypeRegA_def TypeLink_def TypeSymlink_def
      TypeChar_def TypeBlock_def TypeFifo_def)

lemma length_Dir_le:
  assumes "p \<noteq> []" shows "length (Dir p) \<le> length p"
proof (cases "Dir p = p")
  case True
  then show ?thesis by simp
next
  case False
  from Dir_measure [OF assms False] show ?thesis
    by (auto simp: path_measure_def split: if_splits)
qed

lemma MkdirAll_Dir_frame:
  assumes "MkdirAll (Dir p) fs = (e, fs')" and "p \<noteq> Dir p"
  shows "fs' p = fs p"
proof (rule ccontr)
  assume "fs' p \<noteq> fs p"
  from MkdirAll_changes [OF assms(1) this] obtain p' where
    p': "p' \<noteq> []" "prefix p' (Dir p)" "p = Clean p'" by blast
  have ne: "p \<noteq> []" using p'(3) Clean_not_Nil by simp
  have "length p \<le> length p'" using p'(1,3) length_Clean_le by simp
  also have "\<dots> \<le> length (Dir p)" using p'(2) by (rule prefix_length_le)
  finally have l1: "length p \<le> length (Dir p)" .
  with length_Dir_le [OF ne] \<open>length p \<le> length p'\<close> \<open>length p' \<le> length (Dir p)\<close>
  have "length p' = length (Dir p)" by linarith
  with p'(2) have "p' = Dir p" by (auto simp: prefix_def)
  with p'(3) have "p = Dir p" by (simp add: Clean_Dir)
  with assms(2) show False by simp
qed

lemma RemoveAll_cases:
  assumes "RemoveAll p fs = (e, fs')"
  shows "(e \<noteq> None \<and> fs' = fs) \<or> (e = None \<and> p = [] \<and> fs' = fs) \<or>
         (e = None \<and> p \<noteq> []
            \<and> fs' = (\<lambda>q. if q = Clean p \<or> Clean p \<in> set (parents q) then None else fs q))"
  using assms by (auto simp: RemoveAll_def split: if_splits)







subsection \<open>The permission computation\<close>





subsection \<open>Extraction of one entry\<close>

lemma extract_MkdirAll_error:
  assumes "MkdirAll (Dir (hydrateFilepath i (Name header))) fs = (Some err, fs1)"
  shows "extractTarEntry i header input fs = (Some err, fs1)"
  using assms by (simp add: extractTarEntry_def Let_def)

lemma extract_not_regular:
  assumes "Typeflag header \<noteq> TypeReg" and "Typeflag header \<noteq> TypeRegA"
    and "MkdirAll (Dir (hydrateFilepath i (Name header))) fs = (None, fs1)"
  shows "extractTarEntry i header input fs =
     (if Typeflag header \<in> {TypeDir, TypeLink, TypeSymlink, TypeChar, TypeBlock, TypeFifo}
      then (None, fs1)
      else (Some (UnsupportedEntry (Typeflag header) (Name header)), fs1))"
  unfolding extractTarEntry_def Let_def using assms by simp








section \<open>Facts about the layer loop\<close>

subsection \<open>The ancestor check\<close>

lemma inWhiteoutDir_dirnames:
  "inWhiteoutDir fm f = (\<exists>d\<in>set (dirnames f). fm d = Some True)"
proof (induction fm f rule: inWhiteoutDir.induct)
  case (1 fm f)
  show ?case
    by (subst inWhiteoutDir.simps, subst dirnames.simps) (use 1 in auto)
qed

lemma inWhiteoutDir_empty: "inWhiteoutDir Map.empty f = False"
  by (simp add: inWhiteoutDir_dirnames)

subsection \<open>The first entry of a layer\<close>

lemma writeLayer_whiteout:
  assumes "whiteout_named i h"
  shows "writeLayer i fm ((h, c) # s) fs =
     (case RemoveAll (removal_target i h) fs of
        (Some err, fs1) \<Rightarrow> (None, fm, fs1)
      | (None, fs1) \<Rightarrow>
          writeLayer i (fm(Base (hydrateFilepath i (Name h)) \<mapsto> True)) s fs1)"
  using assms by (simp add: whiteout_named_def removal_target_def Let_def)

lemma writeLayer_suppressed:
  assumes "\<not> whiteout_named i h" and "inWhiteoutDir fm (hydrateFilepath i (Name h))"
  shows "writeLayer i fm ((h, c) # s) fs = writeLayer i fm s fs"
  using assms by (simp add: whiteout_named_def Let_def)

lemma writeLayer_placeholder:
  assumes "\<not> whiteout_named i h" and "\<not> inWhiteoutDir fm (hydrateFilepath i (Name h))"
    and "Name h = ''.''" and "Lstat (hydrateFilepath i (Name h)) fs = Inr Directory"
  shows "writeLayer i fm ((h, c) # s) fs = writeLayer i fm s fs"
  using assms(1,2,4) by (simp add: whiteout_named_def Let_def IsDir_def assms(3))

lemma writeLayer_extract:
  assumes "\<not> whiteout_named i h" and "\<not> inWhiteoutDir fm (hydrateFilepath i (Name h))"
    and "\<not> (Name h = ''.'' \<and> Lstat (hydrateFilepath i (Name h)) fs = Inr Directory)"
  shows "writeLayer i fm ((h, c) # s) fs =
     (case type_transition i h fs of
        (Some err, fs1) \<Rightarrow> (Some err, fm, fs1)
      | (None, fs1) \<Rightarrow>
          (case extractTarEntry i h c fs1 of
             (Some err, fs2) \<Rightarrow> (Some err, fm(Name h \<mapsto> True), fs2)
           | (None, fs2) \<Rightarrow> writeLayer i (fm(Name h \<mapsto> True)) s fs2))"
proof (cases "Lstat (hydrateFilepath i (Name h)) fs")
  case (Inl x)
  with assms show ?thesis
    by (simp add: whiteout_named_def Let_def type_transition_def)
next
  case (Inr fi)
  with assms show ?thesis
    by (cases "RemoveAll (hydrateFilepath i (Name h)) fs")
       (auto simp: whiteout_named_def Let_def type_transition_def IsDir_def
             split: option.splits)
qed

declare writeLayer.simps(2) [simp del]





text \<open>After the removal nothing is at the path of an entry that is not a directory
  entry.\<close>

lemma type_transition_clears:
  assumes tt: "type_transition i h fs = (None, fs1)" and nd: "Typeflag h \<noteq> TypeDir"
  shows "(\<exists>x. Lstat (hydrateFilepath i (Name h)) fs1 = Inl x)
         \<or> fs1 (hydrateFilepath i (Name h)) = None"
proof (cases "Lstat (hydrateFilepath i (Name h)) fs")
  case (Inl x)
  with tt have "fs1 = fs" by (simp add: type_transition_def)
  with Inl show ?thesis by simp
next
  case (Inr fi)
  let ?P = "hydrateFilepath i (Name h)"
  from Inr have pne: "?P \<noteq> []" by (simp add: Lstat_Inr)
  then have cl: "Clean ?P = ?P" by (rule Clean_hydrateFilepath)
  from Inr tt nd have "RemoveAll ?P fs = (None, fs1)" by (simp add: type_transition_def)
  from RemoveAll_cases [OF this] pne cl have "fs1 ?P = None" by auto
  then show ?thesis by simp
qed

subsection \<open>What a layer leaves alone\<close>



subsection \<open>The keys of the deletion map\<close>

lemma writeLayer_keys:
  assumes "writeLayer i fm stream fs = (e, fm', fs')" and "fm' k = Some True"
  shows "fm k = Some True \<or> k \<in> recorded i ` fst ` set stream"
  using assms
proof (induction stream arbitrary: fm fs)
  case Nil
  then show ?case by simp
next
  case (Cons x stream)
  obtain h c where x: "x = (h, c)" by (cases x)
  let ?P = "hydrateFilepath i (Name h)"
  note run = Cons.prems(1) [unfolded x]
  have step: "fm k = Some True \<or> k \<in> recorded i ` fst ` set (x # stream)"
    if "writeLayer i (fm(recorded i h \<mapsto> True)) stream fs1 = (e, fm', fs')" for fs1
    using Cons.IH [OF that Cons.prems(2)] by (auto simp: x split: if_splits)
  have same: "fm k = Some True \<or> k \<in> recorded i ` fst ` set (x # stream)"
    if "writeLayer i fm stream fs1 = (e, fm', fs')" for fs1
    using Cons.IH [OF that Cons.prems(2)] by auto
  have upd: "fm k = Some True \<or> k \<in> recorded i ` fst ` set (x # stream)"
    if "fm' = fm(recorded i h \<mapsto> True)"
    using that Cons.prems(2) by (auto simp: x split: if_splits)
  have keep: "fm k = Some True \<or> k \<in> recorded i ` fst ` set (x # stream)" if "fm' = fm"
    using that Cons.prems(2) by simp
  show ?case
  proof (cases "whiteout_named i h")
    case True
    then have r: "recorded i h = Base ?P" by (simp add: recorded_def)
    obtain e1 fs1 where rm: "RemoveAll (removal_target i h) fs = (e1, fs1)"
      by (cases "RemoveAll (removal_target i h) fs") auto
    show ?thesis
    proof (cases e1)
      case None
      with run rm have "writeLayer i (fm(recorded i h \<mapsto> True)) stream fs1 = (e, fm', fs')"
        by (simp add: writeLayer_whiteout [OF True] r)
      from step [OF this] show ?thesis .
    next
      case (Some err)
      with run rm have "fm' = fm" by (simp add: writeLayer_whiteout [OF True])
      from keep [OF this] show ?thesis .
    qed
  next
    case nwh: False
    then have r: "recorded i h = Name h" by (simp add: recorded_def)
    show ?thesis
    proof (cases "inWhiteoutDir fm ?P")
      case True
      with run have "writeLayer i fm stream fs = (e, fm', fs')"
        by (simp add: writeLayer_suppressed [OF nwh True])
      from same [OF this] show ?thesis .
    next
      case nsup: False
      show ?thesis
      proof (cases "Name h = ''.'' \<and> Lstat ?P fs = Inr Directory")
        case True
        then have "writeLayer i fm ((h, c) # stream) fs = writeLayer i fm stream fs"
          using writeLayer_placeholder [OF nwh nsup] by blast
        with run have "writeLayer i fm stream fs = (e, fm', fs')" by simp
        from same [OF this] show ?thesis .
      next
        case False
        note eq = writeLayer_extract [OF nwh nsup False, of c stream]
        obtain e1 fs1 where tt: "type_transition i h fs = (e1, fs1)"
          by (cases "type_transition i h fs") auto
        show ?thesis
        proof (cases e1)
          case (Some err)
          with run eq tt have "fm' = fm" by simp
          from keep [OF this] show ?thesis .
        next
          case e1: None
          obtain e2 fs2 where ex: "extractTarEntry i h c fs1 = (e2, fs2)"
            by (cases "extractTarEntry i h c fs1") auto
          show ?thesis
          proof (cases e2)
            case (Some err)
            with run eq tt e1 ex have "fm' = fm(recorded i h \<mapsto> True)" by (simp add: r)
            from upd [OF this] show ?thesis .
          next
            case None
            with run eq tt e1 ex
            have "writeLayer i (fm(recorded i h \<mapsto> True)) stream fs2 = (e, fm', fs')"
              by (simp add: r)
            from step [OF this] show ?thesis .
          qed
        qed
      qed
    qed
  qed
qed

subsection \<open>The state in which an entry is reached\<close>

text \<open>A layer whose first entries are not named like whiteouts cannot end before
  them without an error: a run of the layer that returns \<^verbatim>\<open>nil\<close> reaches the entry
  that follows them, with a deletion map that holds only keys it had or that these
  entries recorded.\<close>

lemma writeLayer_reach:
  assumes "writeLayer i fm (pre @ rest) fs = (None, fm', fs')"
    and "\<forall>x\<in>set pre. \<not> whiteout_named i (fst x)"
  shows "\<exists>fm1 fs1. writeLayer i fm1 rest fs1 = (None, fm', fs')
           \<and> (\<forall>k. fm1 k = Some True \<longrightarrow> fm k = Some True \<or> k \<in> recorded i ` fst ` set pre)"
  using assms
proof (induction pre arbitrary: fm fs)
  case Nil
  then show ?case by auto
next
  case (Cons x pre)
  obtain h c where x: "x = (h, c)" by (cases x)
  let ?P = "hydrateFilepath i (Name h)"
  from Cons.prems(2) have nwh: "\<not> whiteout_named i h"
    and rest: "\<forall>x\<in>set pre. \<not> whiteout_named i (fst x)" by (simp_all add: x)
  then have r: "recorded i h = Name h" by (simp add: recorded_def)
  from Cons.prems(1) have run: "writeLayer i fm ((h, c) # pre @ rest) fs = (None, fm', fs')"
    by (simp add: x)
  have same: ?case if "writeLayer i fm (pre @ rest) fs = (None, fm', fs')"
    using Cons.IH [OF that rest] by auto
  show ?case
  proof (cases "inWhiteoutDir fm ?P")
    case True
    with run have "writeLayer i fm (pre @ rest) fs = (None, fm', fs')"
      by (simp add: writeLayer_suppressed [OF nwh True])
    from same [OF this] show ?thesis .
  next
    case nsup: False
    show ?thesis
    proof (cases "Name h = ''.'' \<and> Lstat ?P fs = Inr Directory")
      case True
      then have "writeLayer i fm ((h, c) # pre @ rest) fs = writeLayer i fm (pre @ rest) fs"
        using writeLayer_placeholder [OF nwh nsup] by blast
      with run have "writeLayer i fm (pre @ rest) fs = (None, fm', fs')" by simp
      from same [OF this] show ?thesis .
    next
      case False
      note eq = writeLayer_extract [OF nwh nsup False, of c "pre @ rest"]
      obtain e1 fs1 where tt: "type_transition i h fs = (e1, fs1)"
        by (cases "type_transition i h fs") auto
      have e1: "e1 = None" using run eq tt by (cases e1) auto
      obtain e2 fs2 where ex: "extractTarEntry i h c fs1 = (e2, fs2)"
        by (cases "extractTarEntry i h c fs1") auto
      have e2: "e2 = None" using run eq tt e1 ex by (cases e2) auto
      with run eq tt e1 ex
      have "writeLayer i (fm(recorded i h \<mapsto> True)) (pre @ rest) fs2 = (None, fm', fs')"
        by (simp add: r)
      from Cons.IH [OF this rest] obtain fm1 fs1' where
        a: "writeLayer i fm1 rest fs1' = (None, fm', fs')"
        and b: "\<forall>k. fm1 k = Some True \<longrightarrow>
                  (fm(recorded i h \<mapsto> True)) k = Some True \<or> k \<in> recorded i ` fst ` set pre"
        by blast
      have "\<forall>k. fm1 k = Some True \<longrightarrow>
              fm k = Some True \<or> k \<in> recorded i ` fst ` set (x # pre)"
        using b by (auto simp: x split: if_splits)
      with a show ?thesis by blast
    qed
  qed
qed

lemma writeLayers_reach:
  assumes "writeLayers i fm (A @ B) fs = (None, fs')"
  shows "\<exists>fm1 fs1. writeLayers i fm1 B fs1 = (None, fs')
           \<and> (\<forall>k. fm1 k = Some True \<longrightarrow>
                 fm k = Some True \<or> k \<in> recorded i ` fst ` set (concat A))"
  using assms
proof (induction A arbitrary: fm fs)
  case Nil
  then show ?case by auto
next
  case (Cons l A)
  obtain e1 fm1 fs1 where wl: "writeLayer i fm l fs = (e1, fm1, fs1)"
    by (cases "writeLayer i fm l fs") auto
  have e1: "e1 = None" using Cons.prems wl by (cases e1) auto
  with Cons.prems wl have "writeLayers i fm1 (A @ B) fs1 = (None, fs')" by simp
  from Cons.IH [OF this] obtain fm2 fs2 where
    a: "writeLayers i fm2 B fs2 = (None, fs')"
    and b: "\<forall>k. fm2 k = Some True \<longrightarrow>
              fm1 k = Some True \<or> k \<in> recorded i ` fst ` set (concat A)" by blast
  have "\<forall>k. fm2 k = Some True \<longrightarrow>
          fm k = Some True \<or> k \<in> recorded i ` fst ` set (concat (l # A))"
  proof (intro allI impI)
    fix k assume "fm2 k = Some True"
    with b have "fm1 k = Some True \<or> k \<in> recorded i ` fst ` set (concat A)" by blast
    then show "fm k = Some True \<or> k \<in> recorded i ` fst ` set (concat (l # A))"
    proof
      assume "fm1 k = Some True"
      from writeLayer_keys [OF wl this] show ?thesis by auto
    next
      assume "k \<in> recorded i ` fst ` set (concat A)"
      then show ?thesis by auto
    qed
  qed
  with a show ?case by blast
qed

text \<open>A run of \<open>AsDirectory\<close> that returns \<^verbatim>\<open>nil\<close> on an image with the layers
  \<open>older\<close>, then a layer with the entry \<open>x\<close> after entries \<open>pre\<close> that are not named like
  whiteouts, then the layers \<open>newer\<close>, reaches \<open>x\<close>, with a deletion map whose keys were
  recorded by the entries of \<open>newer\<close> and \<open>pre\<close>.\<close>

lemma AsDirectory_reach:
  assumes run: "AsDirectory i (older @ (pre @ x # post) # newer) fs = (None, fs')"
    and pre: "\<forall>y\<in>set pre. \<not> whiteout_named i (fst y)"
  shows "\<exists>fm1 fs1. writeLayers i fm1 ((x # post) # rev older) fs1 = (None, fs')
           \<and> (\<forall>k. fm1 k = Some True \<longrightarrow>
                 k \<in> recorded i ` fst ` (set (concat newer) \<union> set pre))"
proof -
  from run obtain fs0 where
    "writeLayers i Map.empty (rev (older @ (pre @ x # post) # newer)) fs0 = (None, fs')"
    by (auto simp: AsDirectory_def split: prod.splits option.splits)
  then have "writeLayers i Map.empty (rev newer @ (pre @ x # post) # rev older) fs0
      = (None, fs')" by simp
  from writeLayers_reach [OF this] obtain fm1 fs1 where
    a: "writeLayers i fm1 ((pre @ x # post) # rev older) fs1 = (None, fs')"
    and b: "\<forall>k. fm1 k = Some True \<longrightarrow> k \<in> recorded i ` fst ` set (concat (rev newer))"
    by auto
  obtain e2 fm2 fs2 where wl: "writeLayer i fm1 (pre @ x # post) fs1 = (e2, fm2, fs2)"
    by (cases "writeLayer i fm1 (pre @ x # post) fs1") auto
  have e2: "e2 = None" using a wl by (cases e2) auto
  with a wl have c: "writeLayers i fm2 (rev older) fs2 = (None, fs')" by simp
  from wl e2 have "writeLayer i fm1 (pre @ x # post) fs1 = (None, fm2, fs2)" by simp
  from writeLayer_reach [OF this pre] obtain fm3 fs3 where
    d: "writeLayer i fm3 (x # post) fs3 = (None, fm2, fs2)"
    and e: "\<forall>k. fm3 k = Some True \<longrightarrow> fm1 k = Some True \<or> k \<in> recorded i ` fst ` set pre"
    by blast
  from d c have "writeLayers i fm3 ((x # post) # rev older) fs3 = (None, fs')" by simp
  moreover have "\<forall>k. fm3 k = Some True \<longrightarrow>
      k \<in> recorded i ` fst ` (set (concat newer) \<union> set pre)"
  proof (intro allI impI)
    fix k assume "fm3 k = Some True"
    with e have "fm1 k = Some True \<or> k \<in> recorded i ` fst ` set pre" by blast
    then show "k \<in> recorded i ` fst ` (set (concat newer) \<union> set pre)"
    proof
      assume "fm1 k = Some True"
      with b have "k \<in> recorded i ` fst ` set (concat (rev newer))" by blast
      then show ?thesis by auto
    next
      assume "k \<in> recorded i ` fst ` set pre"
      then show ?thesis by auto
    qed
  qed
  ultimately show ?thesis by blast
qed

lemma not_suppressed:
  assumes "\<forall>k. fm k = Some True \<longrightarrow> k \<in> recorded i ` fst ` S"
    and "\<forall>x\<in>S. recorded i (fst x) \<notin> set (dirnames p)"
  shows "\<not> inWhiteoutDir fm p"
  using assms unfolding inWhiteoutDir_dirnames by blast


subsection \<open>The run from an entry on\<close>

text \<open>A run that returns \<^verbatim>\<open>nil\<close> and starts at an entry that is processed: the
  removal and the extraction for that entry succeed, and the rest of the layer and the
  older layers follow.\<close>

lemma tail_head:
  assumes nwh: "\<not> whiteout_named i h"
    and nsup: "\<not> inWhiteoutDir fm (hydrateFilepath i (Name h))"
    and ndot: "Name h \<noteq> ''.''"
    and run: "writeLayers i fm (((h, c) # post) # rest) fs = (None, fs')"
  shows "\<exists>fs1 fs2 fm2 fs3.
           type_transition i h fs = (None, fs1) \<and> extractTarEntry i h c fs1 = (None, fs2)
           \<and> writeLayer i (fm(Name h \<mapsto> True)) post fs2 = (None, fm2, fs3)
           \<and> writeLayers i fm2 rest fs3 = (None, fs')"
proof -
  from ndot have np: "\<not> (Name h = ''.'' \<and> Lstat (hydrateFilepath i (Name h)) fs = Inr Directory)"
    by simp
  note eq = writeLayer_extract [OF nwh nsup np, of c post]
  obtain e0 fm2 fs3 where wl: "writeLayer i fm ((h, c) # post) fs = (e0, fm2, fs3)"
    by (cases "writeLayer i fm ((h, c) # post) fs") auto
  have e0: "e0 = None" using run wl by (cases e0) auto
  with run wl have r: "writeLayers i fm2 rest fs3 = (None, fs')" by simp
  obtain e1 fs1 where tt: "type_transition i h fs = (e1, fs1)"
    by (cases "type_transition i h fs") auto
  have e1: "e1 = None" using wl e0 eq tt by (cases e1) auto
  obtain e2 fs2 where ex: "extractTarEntry i h c fs1 = (e2, fs2)"
    by (cases "extractTarEntry i h c fs1") auto
  have e2: "e2 = None" using wl e0 eq tt e1 ex by (cases e2) auto
  have "writeLayer i (fm(Name h \<mapsto> True)) post fs2 = (None, fm2, fs3)"
    using wl e0 eq tt e1 ex e2 by simp
  with r tt e1 ex e2 show ?thesis by blast
qed



lemma extract_skipped:
  assumes "Typeflag h \<in> {TypeLink, TypeSymlink, TypeChar, TypeBlock, TypeFifo}"
  shows "extractTarEntry i h c fs = MkdirAll (Dir (hydrateFilepath i (Name h))) fs"
proof -
  let ?P = "hydrateFilepath i (Name h)"
  obtain e1 fs1 where mk: "MkdirAll (Dir ?P) fs = (e1, fs1)"
    by (cases "MkdirAll (Dir ?P) fs") auto
  show ?thesis
  proof (cases e1)
    case None
    have "Typeflag h \<noteq> TypeReg" "Typeflag h \<noteq> TypeRegA"
      using assms Typeflags_distinct by auto
    from extract_not_regular [OF this, of i fs fs1 c] mk None assms show ?thesis by auto
  next
    case (Some err)
    with mk show ?thesis using extract_MkdirAll_error [of i h fs err fs1 c] by simp
  qed
qed

lemma extract_unsupported:
  assumes "Typeflag h \<notin> {TypeDir, TypeReg, TypeRegA, TypeLink, TypeSymlink,
                          TypeChar, TypeBlock, TypeFifo}"
  shows "extractTarEntry i h c fs =
     (case MkdirAll (Dir (hydrateFilepath i (Name h))) fs of
        (Some err, fs1) \<Rightarrow> (Some err, fs1)
      | (None, fs1) \<Rightarrow> (Some (UnsupportedEntry (Typeflag h) (Name h)), fs1))"
proof -
  let ?P = "hydrateFilepath i (Name h)"
  obtain e1 fs1 where mk: "MkdirAll (Dir ?P) fs = (e1, fs1)"
    by (cases "MkdirAll (Dir ?P) fs") auto
  show ?thesis
  proof (cases e1)
    case None
    have "Typeflag h \<noteq> TypeReg" "Typeflag h \<noteq> TypeRegA" using assms by auto
    from extract_not_regular [OF this, of i fs fs1 c] mk None assms show ?thesis by auto
  next
    case (Some err)
    with mk show ?thesis using extract_MkdirAll_error [of i h fs err fs1 c] by simp
  qed
qed

lemma extract_unsupported_fails:
  assumes "Typeflag h \<notin> {TypeDir, TypeReg, TypeRegA, TypeLink, TypeSymlink,
                          TypeChar, TypeBlock, TypeFifo}"
  shows "fst (extractTarEntry i h c fs) \<noteq> None"
  unfolding extract_unsupported [OF assms] by (auto split: prod.splits option.splits)

text \<open>After an entry of a skipped type has been processed without error,
  \<^verbatim>\<open>os.Lstat\<close> finds nothing at its path.\<close>

lemma skipped_leaves_nothing:
  assumes ty: "Typeflag h \<in> {TypeLink, TypeSymlink, TypeChar, TypeBlock, TypeFifo}"
    and tt: "type_transition i h fs = (None, fs1)"
    and ex: "extractTarEntry i h c fs1 = (e, fs2)"
    and nd: "hydrateFilepath i (Name h) \<noteq> Dir (hydrateFilepath i (Name h))"
  shows "Lstat (hydrateFilepath i (Name h)) fs2 \<in> {Inl ENOENT, Inl ENOTDIR}"
proof -
  let ?P = "hydrateFilepath i (Name h)"
  have ntd: "Typeflag h \<noteq> TypeDir" using ty Typeflags_distinct by auto
  from ex have mk: "MkdirAll (Dir ?P) fs1 = (e, fs2)" by (simp add: extract_skipped [OF ty])
  from MkdirAll_Dir_frame [OF mk nd] have same: "fs2 ?P = fs1 ?P" .
  show ?thesis
  proof (cases "?P = []")
    case True
    then show ?thesis by (simp add: Lstat_def)
  next
    case False
    then have cl: "Clean ?P = ?P" by (rule Clean_hydrateFilepath)
    from type_transition_clears [OF tt ntd]
    have "below_file fs1 ?P \<or> fs1 ?P = None"
      using False cl by (auto simp: Lstat_def split: if_splits option.splits)
    then have "below_file fs2 ?P \<or> fs2 ?P = None"
      using MkdirAll_below_file [OF mk] same by auto
    then show ?thesis using False cl by (auto simp: Lstat_def)
  qed
qed


section \<open>Path containment\<close>

text \<open>
  C1 (every normalized path is within the destination root, escaping names are
  rejected). The claim fails on the code: \<open>hydrateFilepath\<close> joins the name to the
  root with \<^verbatim>\<open>filepath.Join\<close>, which resolves \<^verbatim>\<open>..\<close> lexically and rejects
  nothing. The name \<^verbatim>\<open>../etc/passwd\<close> under the root \<^verbatim>\<open>/out\<close> gives
  \<^verbatim>\<open>/etc/passwd\<close>, and a run with such an entry succeeds and writes that file.
\<close>

theorem hydrateFilepath_escapes_root:
  "hydrateFilepath out_image ''../etc/passwd'' = ''/etc/passwd''
   \<and> \<not> within_root (dirPath out_image) (hydrateFilepath out_image ''../etc/passwd'')
   \<and> fst (AsDirectory out_image [[tar_entry ''../etc/passwd'' TypeReg 0x1A4 ''x'']] root_only)
       = None
   \<and> snd (AsDirectory out_image [[tar_entry ''../etc/passwd'' TypeReg 0x1A4 ''x'']] root_only)
         ''/etc/passwd'' = Some (File ''x'' 0x1A4 (None, None) (Some (0, 0)))"
  by code_simp

text \<open>
  C1 as the code has it. \<open>hydrateFilepath\<close> first joins the pieces of the name into
  the relative path \<^verbatim>\<open>lPath\<close>, which \<^verbatim>\<open>filepath.Join\<close> cleans: a \<^verbatim>\<open>..\<close> element
  that follows a directory name is resolved there (\<^verbatim>\<open>a/../b\<close> becomes \<^verbatim>\<open>b\<close>). For an
  absolute destination root and an entry name whose \<^verbatim>\<open>lPath\<close> has no \<^verbatim>\<open>..\<close> element
  left, the path \<open>hydrateFilepath\<close> returns is the cleaned root or has the cleaned root
  among its ancestors. This covers absolute-looking names (a leading separator is
  dropped) and names with backslashes.
\<close>

theorem hydrateFilepath_within_root:
  assumes ne: "dirPath i \<noteq> []" and rooted: "hd (dirPath i) = sep"
    and nd: "''..'' \<notin> set (Split (if backslash \<in> set fPath then Join (Split fPath backslash)
                                    else Join (Split fPath sep)) sep)"
  shows "within_root (dirPath i) (hydrateFilepath i fPath)"
proof -
  let ?root = "dirPath i"
  define lPath where "lPath = (if backslash \<in> set fPath then Join (Split fPath backslash)
            else Join (Split fPath sep))"
  let ?l = lPath
  let ?S = "clean_elems True [] (Split ?root sep)"
  let ?B = "filter kept (Split ?l sep)"
  have l: "''..'' \<notin> set (Split ?l sep)"
    unfolding lPath_def using nd .
  have "hydrateFilepath i fPath = Join [?root, ?l]"
    unfolding lPath_def hydrateFilepath_def Let_def by (rule refl)
  then have hyd: "hydrateFilepath i fPath = Clean (?root @ sep # ?l)"
    using ne by simp
  have "clean_elems True [] (Split (?root @ sep # ?l) sep) = clean_elems True ?S (Split ?l sep)"
    by (simp only: Split_append_sep clean_elems_append)
  also have "\<dots> = rev ?B @ ?S" using l by (rule clean_elems_no_dotdot)
  finally have ce: "clean_elems True [] (Split (?root @ sep # ?l) sep) = rev ?B @ ?S" .
  have hd1: "hd (?root @ sep # ?l) = sep" using ne rooted by (cases ?root) auto
  have c1: "Clean (?root @ sep # ?l) = sep # strings_Join (rev ?S @ ?B) [sep]"
    using hd1 by (simp add: Clean_def Let_def ce)
  have c2: "Clean ?root = sep # strings_Join (rev ?S) [sep]"
    using ne rooted by (simp add: Clean_def Let_def)
  show ?thesis
  proof (cases "?B = []")
    case True
    then show ?thesis unfolding within_root_def hyd c1 c2 by simp
  next
    case B: False
    then have "hd ?B \<in> set ?B" by (rule hd_in_set)
    then have "hd ?B \<noteq> []" by (auto simp: kept_def)
    with B have jB: "strings_Join ?B [sep] \<noteq> []" by (rule strings_Join_nonempty)
    show ?thesis
    proof (cases "rev ?S = []")
      case True
      then have "Clean (?root @ sep # ?l) = sep # strings_Join ?B [sep]"
        and "Clean ?root = [sep]"
        using c1 c2 by simp_all
      then show ?thesis unfolding within_root_def hyd using parents_root [OF jB] by simp
    next
      case S: False
      have "Clean (?root @ sep # ?l) = Clean ?root @ sep # strings_Join ?B [sep]"
        unfolding c1 c2 using strings_Join_append [OF S B, of sep] by simp
      moreover have "Clean ?root \<noteq> []" unfolding c2 by simp
      ultimately show ?thesis unfolding within_root_def hyd
        using parents_append_sep [of "Clean ?root" "strings_Join ?B [sep]"] by simp
    qed
  qed
qed

theorem hydrateFilepath_within_root_witness:
  "within_root ''/out'' (hydrateFilepath out_image ''a/../b'')
   \<and> hydrateFilepath out_image ''a/../b'' = ''/out/b''
   \<and> within_root ''/out'' (hydrateFilepath out_image (''/etc//x'' @ [backslash] @ ''./passwd''))
   \<and> hydrateFilepath out_image (''/etc//x'' @ [backslash] @ ''./passwd'')
       = ''/out/etc/x/passwd''"
proof -
  let ?m = "''a/../b''"
  let ?n = "''/etc//x'' @ [backslash] @ ''./passwd''"
  have d: "dirPath out_image = ''/out''" by (simp add: out_image_def)
  have ne: "dirPath out_image \<noteq> []" by code_simp
  have rooted: "hd (dirPath out_image) = sep" by code_simp
  have ndm: "''..'' \<notin> set (Split (if backslash \<in> set ?m then Join (Split ?m backslash)
                                    else Join (Split ?m sep)) sep)" by code_simp
  have ndn: "''..'' \<notin> set (Split (if backslash \<in> set ?n then Join (Split ?n backslash)
                                    else Join (Split ?n sep)) sep)" by code_simp
  have vm: "hydrateFilepath out_image ?m = ''/out/b''" by code_simp
  have vn: "hydrateFilepath out_image ?n = ''/out/etc/x/passwd''" by code_simp
  from hydrateFilepath_within_root [OF ne rooted ndm] hydrateFilepath_within_root [OF ne rooted ndn]
    vm vn
  show ?thesis unfolding d by simp
qed

section \<open>Whiteouts across layers\<close>

text \<open>
  C2 (whiteout precedence). The claim: when a newer layer holds a whiteout for a path
  and an older layer a regular entry for it, the final tree has no file at the path.
  The code does not do this. The image below has the base layer with the regular file
  \<^verbatim>\<open>a/b\<close> and a newer layer with the whiteout \<^verbatim>\<open>a/.wh.b\<close>. The newer layer is
  processed first: its whiteout removes nothing and is recorded in the deletion map under
  its base name \<^verbatim>\<open>.wh.b\<close>. \<open>inWhiteoutDir\<close> then looks up the parent directories of
  the host path \<^verbatim>\<open>/out/a/b\<close>, none of which is that key, and the file is written: the
  run succeeds and \<^verbatim>\<open>/out/a/b\<close> holds the older layer's file.
\<close>

theorem whiteout_does_not_hide_older_file:
  "fst (AsDirectory out_image
         [[tar_entry ''a/b'' TypeReg 0x1A4 ''X''],
          [tar_entry ''a/.wh.b'' TypeReg 0x1A4 []]] root_only) = None
   \<and> snd (AsDirectory out_image
         [[tar_entry ''a/b'' TypeReg 0x1A4 ''X''],
          [tar_entry ''a/.wh.b'' TypeReg 0x1A4 []]] root_only) ''/out/a/b''
       = Some (File ''X'' 0x1A4 (None, None) (Some (0, 0)))"
  by code_simp

text \<open>
  C3 (ancestor-deletion cascade). The claim: when a whiteout of a newer layer deletes
  a directory, the entries of older layers below that directory are skipped. The code
  does not do this either, for the same reason as in C2: the newer layer's whiteout
  \<^verbatim>\<open>.wh.d\<close> is recorded under the key \<^verbatim>\<open>.wh.d\<close>, the ancestor check for
  \<^verbatim>\<open>/out/d/f\<close> looks up \<^verbatim>\<open>/out/d\<close>, \<^verbatim>\<open>/out\<close> and \<^verbatim>\<open>/\<close>, and the older layer's
  \<^verbatim>\<open>d/f\<close> is written.
\<close>

theorem whiteout_of_directory_does_not_hide_descendants:
  "fst (AsDirectory out_image
         [[tar_entry ''d'' TypeDir 0x1ED [], tar_entry ''d/f'' TypeReg 0x1A4 ''X''],
          [tar_entry ''.wh.d'' TypeReg 0x1A4 []]] root_only) = None
   \<and> snd (AsDirectory out_image
         [[tar_entry ''d'' TypeDir 0x1ED [], tar_entry ''d/f'' TypeReg 0x1A4 ''X''],
          [tar_entry ''.wh.d'' TypeReg 0x1A4 []]] root_only) ''/out/d/f''
       = Some (File ''X'' 0x1A4 (None, None) (Some (0, 0)))"
  by code_simp

text \<open>
  C4 (a failed removal is not fatal and the traversal continues). In the code a failed
  removal makes \<open>writeLayer\<close> return \<^verbatim>\<open>nil\<close> at once: the run does not fail, but the
  remaining entries of the layer are not processed. In the layer below the file
  \<^verbatim>\<open>a\<close> is written first; the removal for the whiteout \<^verbatim>\<open>a/.wh.b\<close> then fails, since
  \<^verbatim>\<open>/out/a/b\<close> lies below a regular file; the run returns \<^verbatim>\<open>nil\<close> and the entry
  \<^verbatim>\<open>c\<close> that follows is never written.
\<close>

theorem failed_removal_ends_the_layer:
  "fst (RemoveAll ''/out/a/b''
         [''/'' \<mapsto> Directory, ''/out'' \<mapsto> Directory,
          ''/out/a'' \<mapsto> File ''X'' 0x1A4 (None, None) None]) = Some ENOTDIR
   \<and> fst (AsDirectory out_image
         [[tar_entry ''a'' TypeReg 0x1A4 ''X'', tar_entry ''a/.wh.b'' TypeReg 0x1A4 [],
           tar_entry ''c'' TypeReg 0x1A4 ''Y'']] root_only) = None
   \<and> snd (AsDirectory out_image
         [[tar_entry ''a'' TypeReg 0x1A4 ''X'', tar_entry ''a/.wh.b'' TypeReg 0x1A4 [],
           tar_entry ''c'' TypeReg 0x1A4 ''Y'']] root_only) ''/out/c'' = None"
  by code_simp

section \<open>Permission normalization\<close>




section \<open>Directory entries\<close>

text \<open>
  C6 (a directory entry creates its directory). The claim fails on the code: for a
  directory entry \<open>extractTarEntry\<close> makes the parent of the entry's path and returns;
  the directory of the entry itself is not created. In the run below the entry
  \<^verbatim>\<open>a/b\<close> leaves \<^verbatim>\<open>/out/a\<close> and no \<^verbatim>\<open>/out/a/b\<close>.
\<close>

theorem directory_entry_not_created:
  "fst (AsDirectory out_image [[tar_entry ''a/b'' TypeDir 0x1ED []]] root_only) = None
   \<and> snd (AsDirectory out_image [[tar_entry ''a/b'' TypeDir 0x1ED []]] root_only) ''/out/a''
       = Some Directory
   \<and> snd (AsDirectory out_image [[tar_entry ''a/b'' TypeDir 0x1ED []]] root_only) ''/out/a/b''
       = None
   \<and> hydrateFilepath out_image ''a/b'' = ''/out/a/b''"
  by code_simp

text \<open>
  C6 as the code has it: for a directory entry \<open>extractTarEntry\<close> is exactly
  \<open>MkdirAll\<close> of the parent of the entry's path. When it succeeds the parent is a
  directory, and what was at the entry's own path (nothing, for an absent directory)
  is left as it was.
\<close>

theorem directory_entry_makes_parents_only:
  assumes "Typeflag header = TypeDir"
  shows "extractTarEntry i header input fs = MkdirAll (Dir (hydrateFilepath i (Name header))) fs
    \<and> (fst (extractTarEntry i header input fs) = None \<longrightarrow>
         snd (extractTarEntry i header input fs) (Dir (hydrateFilepath i (Name header)))
           = Some Directory)
    \<and> (hydrateFilepath i (Name header) \<noteq> Dir (hydrateFilepath i (Name header)) \<longrightarrow>
         snd (extractTarEntry i header input fs) (hydrateFilepath i (Name header))
           = fs (hydrateFilepath i (Name header)))"
proof -
  let ?P = "hydrateFilepath i (Name header)"
  obtain e1 fs1 where mk: "MkdirAll (Dir ?P) fs = (e1, fs1)"
    by (cases "MkdirAll (Dir ?P) fs") auto
  have eq: "extractTarEntry i header input fs = (e1, fs1)"
  proof (cases e1)
    case None
    with mk assms Typeflags_distinct show ?thesis
      using extract_not_regular [of header i fs fs1 input] by simp
  next
    case (Some err)
    with mk show ?thesis using extract_MkdirAll_error [of i header fs err fs1 input] by simp
  qed
  have "e1 = None \<longrightarrow> fs1 (Dir ?P) = Some Directory"
    using mk MkdirAll_dir [of "Dir ?P" fs fs1] by (auto simp: Clean_Dir)
  moreover have "?P \<noteq> Dir ?P \<longrightarrow> fs1 ?P = fs ?P"
    using MkdirAll_Dir_frame [OF mk] by auto
  ultimately show ?thesis using eq mk by simp
qed

theorem directory_entry_makes_parents_only_witness:
  "extractTarEntry out_image (fst (tar_entry ''a/b'' TypeDir 0x1ED [])) [] out_dir_fs
     = MkdirAll (Dir (hydrateFilepath out_image ''a/b'')) out_dir_fs
   \<and> snd (extractTarEntry out_image (fst (tar_entry ''a/b'' TypeDir 0x1ED [])) [] out_dir_fs)
       ''/out/a'' = Some Directory
   \<and> snd (extractTarEntry out_image (fst (tar_entry ''a/b'' TypeDir 0x1ED [])) [] out_dir_fs)
       ''/out/a/b'' = None"
proof -
  let ?h = "fst (tar_entry ''a/b'' TypeDir 0x1ED [])"
  have h: "Typeflag ?h = TypeDir" by code_simp
  have n: "Name ?h = ''a/b''" by code_simp
  have p: "hydrateFilepath out_image ''a/b'' = ''/out/a/b''" by code_simp
  have d: "Dir ''/out/a/b'' = ''/out/a''" by code_simp
  have ok: "fst (extractTarEntry out_image ?h [] out_dir_fs) = None" by code_simp
  have ab: "out_dir_fs ''/out/a/b'' = None" by code_simp
  have neq: "''/out/a/b'' \<noteq> ''/out/a''" by simp
  note t = directory_entry_makes_parents_only [OF h, of out_image "[]" out_dir_fs,
      unfolded n p d]
  from t ok have "snd (extractTarEntry out_image ?h [] out_dir_fs) ''/out/a'' = Some Directory"
    by blast
  moreover from t neq ab
  have "snd (extractTarEntry out_image ?h [] out_dir_fs) ''/out/a/b'' = None"
    by metis
  ultimately show ?thesis using t unfolding p d by blast
qed


section \<open>Skipped and unsupported entry types\<close>

text \<open>
  C8 (skipped types never fail the run, other types always do). The claim fails on the
  code in both parts. The parent directories are made before the type is looked at, so
  a symbolic link below a regular file fails the run with \<^verbatim>\<open>ENOTDIR\<close>; and an entry
  named like a whiteout is handled as a whiteout whatever its type, so the unsupported
  type \<^verbatim>\<open>Z\<close> (\<open>0x5A\<close>) does not fail the run.
\<close>

theorem skipped_entry_can_fail_unsupported_can_pass:
  "fst (AsDirectory out_image
         [[tar_entry ''a'' TypeReg 0x1A4 ''X'', tar_entry ''a/b'' TypeSymlink 0x1FF []]]
         root_only) = Some ENOTDIR
   \<and> fst (AsDirectory out_image [[tar_entry ''.wh.x'' 0x5A 0x1A4 []]] root_only) = None"
  by code_simp

text \<open>
  C8 as the code has it, in three parts, for an entry \<open>(h, c)\<close> of any layer, met with
  the deletion map \<open>fm\<close> and the file system \<open>fs\<close>.

  An entry named like a whiteout is handled as a whiteout whatever its type: the loop
  goes on with the entries \<open>s\<close> that follow, or ends the layer with \<^verbatim>\<open>nil\<close> when the
  removal fails; processing the entry never gives an error.

  For a hard link, symbolic link, character device, block device or FIFO,
  \<open>extractTarEntry\<close> is exactly \<open>MkdirAll\<close> of the parent of the entry's path. When
  such an entry is processed (it is not named like a whiteout, not suppressed by the
  ancestor check and not named \<^verbatim>\<open>.\<close>), the loop fails at it exactly when the removal
  of what is at its path or the making of the parent directories fails; and when it does
  not fail, \<^verbatim>\<open>os.Lstat\<close> finds nothing at the entry's path afterwards (for a path that
  is not its own parent).

  For a type outside the supported and the skipped ones \<open>extractTarEntry\<close> always
  returns an error. When such an entry is processed, the run from this entry on fails:
  with the error of the removal or of \<open>MkdirAll\<close> when one of them fails, and else
  with the unsupported-type error that holds the type and the entry's name. So
  \<open>AsDirectory\<close> fails on every image that has such an entry in a layer, after entries
  \<open>pre\<close> that are not named like whiteouts, when no entry processed before it has
  recorded a key that the ancestor check looks up for the entry's path.
\<close>

theorem skipped_and_unsupported_types:
  "(whiteout_named i h \<longrightarrow>
      writeLayer i fm ((h, c) # s) fs =
        (case RemoveAll (removal_target i h) fs of
           (Some err, fs1) \<Rightarrow> (None, fm, fs1)
         | (None, fs1) \<Rightarrow>
             writeLayer i (fm(Base (hydrateFilepath i (Name h)) \<mapsto> True)) s fs1)
      \<and> fst (writeLayer i fm [(h, c)] fs) = None)
   \<and> (Typeflag h \<in> {TypeLink, TypeSymlink, TypeChar, TypeBlock, TypeFifo} \<longrightarrow>
      extractTarEntry i h c fs = MkdirAll (Dir (hydrateFilepath i (Name h))) fs
      \<and> (\<not> whiteout_named i h \<and> \<not> inWhiteoutDir fm (hydrateFilepath i (Name h))
           \<and> Name h \<noteq> ''.'' \<longrightarrow>
         fst (writeLayer i fm [(h, c)] fs) =
           (case type_transition i h fs of
              (Some err, fs1) \<Rightarrow> Some err
            | (None, fs1) \<Rightarrow> fst (MkdirAll (Dir (hydrateFilepath i (Name h))) fs1))
         \<and> (fst (writeLayer i fm [(h, c)] fs) = None
              \<and> hydrateFilepath i (Name h) \<noteq> Dir (hydrateFilepath i (Name h)) \<longrightarrow>
            Lstat (hydrateFilepath i (Name h)) (snd (snd (writeLayer i fm [(h, c)] fs)))
              \<in> {Inl ENOENT, Inl ENOTDIR})))
   \<and> (Typeflag h \<notin> {TypeDir, TypeReg, TypeRegA, TypeLink, TypeSymlink,
                      TypeChar, TypeBlock, TypeFifo} \<longrightarrow>
      fst (extractTarEntry i h c fs) \<noteq> None
      \<and> (\<not> whiteout_named i h \<and> Name h \<noteq> ''.'' \<longrightarrow>
         (\<not> inWhiteoutDir fm (hydrateFilepath i (Name h)) \<longrightarrow>
            fst (writeLayers i fm (((h, c) # s) # rest) fs) =
              (case type_transition i h fs of
                 (Some err, fs1) \<Rightarrow> Some err
               | (None, fs1) \<Rightarrow>
                   (case MkdirAll (Dir (hydrateFilepath i (Name h))) fs1 of
                      (Some err, fs2) \<Rightarrow> Some err
                    | (None, fs2) \<Rightarrow> Some (UnsupportedEntry (Typeflag h) (Name h)))))
         \<and> ((\<forall>x\<in>set pre. \<not> whiteout_named i (fst x))
              \<and> (\<forall>x\<in>set (concat newer) \<union> set pre.
                    recorded i (fst x) \<notin> set (dirnames (hydrateFilepath i (Name h)))) \<longrightarrow>
            fst (AsDirectory i (older @ (pre @ (h, c) # s) # newer) fs) \<noteq> None)))"
proof -
  let ?P = "hydrateFilepath i (Name h)"
  have wh: "writeLayer i fm ((h, c) # s) fs =
        (case RemoveAll (removal_target i h) fs of
           (Some err, fs1) \<Rightarrow> (None, fm, fs1)
         | (None, fs1) \<Rightarrow> writeLayer i (fm(Base ?P \<mapsto> True)) s fs1)
      \<and> fst (writeLayer i fm [(h, c)] fs) = None" if w: "whiteout_named i h"
  proof -
    have "fst (writeLayer i fm [(h, c)] fs) = None"
      unfolding writeLayer_whiteout [OF w] by (simp split: prod.splits option.splits)
    with writeLayer_whiteout [OF w, of fm c s fs] show ?thesis by simp
  qed
  have one: "fst (writeLayer i fm [(h, c)] fs) =
           (case type_transition i h fs of
              (Some err, fs1) \<Rightarrow> Some err
            | (None, fs1) \<Rightarrow> fst (MkdirAll (Dir ?P) fs1))
         \<and> (fst (writeLayer i fm [(h, c)] fs) = None \<and> ?P \<noteq> Dir ?P \<longrightarrow>
            Lstat ?P (snd (snd (writeLayer i fm [(h, c)] fs))) \<in> {Inl ENOENT, Inl ENOTDIR})"
    if ty: "Typeflag h \<in> {TypeLink, TypeSymlink, TypeChar, TypeBlock, TypeFifo}"
      and nwh: "\<not> whiteout_named i h" and nsup: "\<not> inWhiteoutDir fm ?P"
      and ndot: "Name h \<noteq> ''.''"
  proof -
    from ndot have np: "\<not> (Name h = ''.'' \<and> Lstat ?P fs = Inr Directory)" by simp
    note eq = writeLayer_extract [OF nwh nsup np, of c "[]"]
    obtain e1 fs1 where tt: "type_transition i h fs = (e1, fs1)"
      by (cases "type_transition i h fs") auto
    show ?thesis
    proof (cases e1)
      case (Some err)
      with eq tt show ?thesis by simp
    next
      case e1: None
      obtain e2 fs2 where ex: "extractTarEntry i h c fs1 = (e2, fs2)"
        by (cases "extractTarEntry i h c fs1") auto
      then have mk: "MkdirAll (Dir ?P) fs1 = (e2, fs2)" by (simp add: extract_skipped [OF ty])
      have r: "writeLayer i fm [(h, c)] fs = (e2, fm(Name h \<mapsto> True), fs2)"
        using eq tt e1 ex by (cases e2) simp_all
      have "Lstat ?P fs2 \<in> {Inl ENOENT, Inl ENOTDIR}" if "?P \<noteq> Dir ?P"
        using skipped_leaves_nothing [OF ty _ ex that] tt e1 by simp
      with r tt e1 mk show ?thesis by simp
    qed
  qed
  have tail: "fst (writeLayers i fm (((h, c) # s) # rest) fs) =
              (case type_transition i h fs of
                 (Some err, fs1) \<Rightarrow> Some err
               | (None, fs1) \<Rightarrow>
                   (case MkdirAll (Dir ?P) fs1 of
                      (Some err, fs2) \<Rightarrow> Some err
                    | (None, fs2) \<Rightarrow> Some (UnsupportedEntry (Typeflag h) (Name h))))"
    if ty: "Typeflag h \<notin> {TypeDir, TypeReg, TypeRegA, TypeLink, TypeSymlink,
                            TypeChar, TypeBlock, TypeFifo}"
      and nwh: "\<not> whiteout_named i h" and nsup: "\<not> inWhiteoutDir fm ?P"
      and ndot: "Name h \<noteq> ''.''"
  proof -
    from ndot have np: "\<not> (Name h = ''.'' \<and> Lstat ?P fs = Inr Directory)" by simp
    note eq = writeLayer_extract [OF nwh nsup np, of c s]
    obtain e1 fs1 where tt: "type_transition i h fs = (e1, fs1)"
      by (cases "type_transition i h fs") auto
    show ?thesis
    proof (cases e1)
      case (Some err)
      with eq tt show ?thesis by simp
    next
      case e1: None
      obtain e2 fs2 where mk: "MkdirAll (Dir ?P) fs1 = (e2, fs2)"
        by (cases "MkdirAll (Dir ?P) fs1") auto
      show ?thesis
        using eq tt e1 mk extract_unsupported [OF ty, of i c fs1] by (cases e2) simp_all
    qed
  qed
  have run: "fst (AsDirectory i (older @ (pre @ (h, c) # s) # newer) fs) \<noteq> None"
    if ty: "Typeflag h \<notin> {TypeDir, TypeReg, TypeRegA, TypeLink, TypeSymlink,
                            TypeChar, TypeBlock, TypeFifo}"
      and nwh: "\<not> whiteout_named i h" and ndot: "Name h \<noteq> ''.''"
      and pre: "\<forall>x\<in>set pre. \<not> whiteout_named i (fst x)"
      and keys: "\<forall>x\<in>set (concat newer) \<union> set pre. recorded i (fst x) \<notin> set (dirnames ?P)"
  proof
    assume "fst (AsDirectory i (older @ (pre @ (h, c) # s) # newer) fs) = None"
    then obtain fs' where
      "AsDirectory i (older @ (pre @ (h, c) # s) # newer) fs = (None, fs')"
      by (cases "AsDirectory i (older @ (pre @ (h, c) # s) # newer) fs") auto
    from AsDirectory_reach [OF this pre] obtain fm1 fs1 where
      a: "writeLayers i fm1 (((h, c) # s) # rev older) fs1 = (None, fs')"
      and b: "\<forall>k. fm1 k = Some True \<longrightarrow>
                k \<in> recorded i ` fst ` (set (concat newer) \<union> set pre)" by blast
    from not_suppressed [OF b keys] have nsup: "\<not> inWhiteoutDir fm1 ?P" .
    from tail_head [OF nwh nsup ndot a] obtain fs2 fs3 where
      "extractTarEntry i h c fs2 = (None, fs3)" by blast
    with extract_unsupported_fails [OF ty, of i c fs2] show False by simp
  qed
  show ?thesis
    using wh extract_skipped [of h i c fs] one extract_unsupported_fails [of h i c fs]
      tail run
    by blast
qed


theorem skipped_and_unsupported_types_witness:
  "fst (writeLayer out_image Map.empty [tar_entry ''d/.wh.x'' 0x5A 0x1A4 []] out_dir_fs) = None
   \<and> extractTarEntry out_image (tar_header ''s/l'' TypeSymlink 0x1FF) [] out_dir_fs
       = MkdirAll ''/out/s'' out_dir_fs
   \<and> fst (writeLayer out_image Map.empty [tar_entry ''s/l'' TypeSymlink 0x1FF []] out_dir_fs)
       = None
   \<and> Lstat ''/out/s/l''
        (snd (snd (writeLayer out_image Map.empty [tar_entry ''s/l'' TypeSymlink 0x1FF []]
                     out_dir_fs))) \<in> {Inl ENOENT, Inl ENOTDIR}
   \<and> fst (writeLayers out_image Map.empty
            [[tar_entry ''q/z'' 0x5A 0x1A4 [], tar_entry ''f'' TypeReg 0x1A4 ''X'']] out_dir_fs)
       = Some (UnsupportedEntry 0x5A ''q/z'')
   \<and> fst (AsDirectory out_image
            [[tar_entry ''g'' TypeReg 0x1A4 ''G''],
             [tar_entry ''e'' TypeReg 0x1A4 ''E'', tar_entry ''q/z'' 0x5A 0x1A4 [],
              tar_entry ''f'' TypeReg 0x1A4 ''X''],
             [tar_entry ''n'' TypeReg 0x1A4 ''N'']] root_only) \<noteq> None"
proof -
  let ?w = "tar_header ''d/.wh.x'' 0x5A 0x1A4"
  let ?l = "tar_header ''s/l'' TypeSymlink 0x1FF"
  let ?z = "tar_header ''q/z'' 0x5A 0x1A4"
  let ?f = "tar_entry ''f'' TypeReg 0x1A4 ''X''"
  let ?pre = "[tar_entry ''e'' TypeReg 0x1A4 ''E'']"
  let ?newer = "[[tar_entry ''n'' TypeReg 0x1A4 ''N'']]"
  let ?older = "[[tar_entry ''g'' TypeReg 0x1A4 ''G'']]"
  have w: "whiteout_named out_image ?w" by code_simp
  note a = skipped_and_unsupported_types [where i = out_image and h = ?w and fm = Map.empty
      and c = "[]" and s = "[]" and fs = out_dir_fs, THEN conjunct1]
  from a w have c1: "fst (writeLayer out_image Map.empty [(?w, [])] out_dir_fs) = None"
    by blast
  have l: "Typeflag ?l \<in> {TypeLink, TypeSymlink, TypeChar, TypeBlock, TypeFifo}" by code_simp
  have pl: "hydrateFilepath out_image (Name ?l) = ''/out/s/l''" by code_simp
  have dl: "Dir ''/out/s/l'' = ''/out/s''" by code_simp
  have l2: "\<not> whiteout_named out_image ?l \<and> \<not> inWhiteoutDir Map.empty ''/out/s/l''
      \<and> Name ?l \<noteq> ''.''" by code_simp
  have l3: "(case type_transition out_image ?l out_dir_fs of
               (Some err, fs1) \<Rightarrow> Some err
             | (None, fs1) \<Rightarrow> fst (MkdirAll ''/out/s'' fs1)) = None" by code_simp
  have l4: "''/out/s/l'' \<noteq> ''/out/s''" by simp
  note b = skipped_and_unsupported_types [where i = out_image and h = ?l and fm = Map.empty
      and c = "[]" and fs = out_dir_fs, THEN conjunct2, THEN conjunct1, unfolded pl dl]
  from b l have c2: "extractTarEntry out_image ?l [] out_dir_fs = MkdirAll ''/out/s'' out_dir_fs"
    by blast
  from b l l2 have b2: "fst (writeLayer out_image Map.empty [(?l, [])] out_dir_fs) =
           (case type_transition out_image ?l out_dir_fs of
              (Some err, fs1) \<Rightarrow> Some err
            | (None, fs1) \<Rightarrow> fst (MkdirAll ''/out/s'' fs1))"
    by blast
  then have c3: "fst (writeLayer out_image Map.empty [(?l, [])] out_dir_fs) = None"
    unfolding l3 .
  from b l l2 c3 l4 have c4: "Lstat ''/out/s/l''
        (snd (snd (writeLayer out_image Map.empty [(?l, [])] out_dir_fs)))
          \<in> {Inl ENOENT, Inl ENOTDIR}"
    by blast
  have z: "Typeflag ?z \<notin> {TypeDir, TypeReg, TypeRegA, TypeLink, TypeSymlink,
                            TypeChar, TypeBlock, TypeFifo}" by code_simp
  have tz: "Typeflag ?z = 0x5A" "Name ?z = ''q/z''" by code_simp+
  have pz: "hydrateFilepath out_image ''q/z'' = ''/out/q/z''" by code_simp
  have dz: "Dir ''/out/q/z'' = ''/out/q''" by code_simp
  have z2: "\<not> whiteout_named out_image ?z \<and> Name ?z \<noteq> ''.''" by code_simp
  have z3: "\<not> inWhiteoutDir Map.empty ''/out/q/z''" by code_simp
  have z4: "(case type_transition out_image ?z out_dir_fs of
               (Some err, fs1) \<Rightarrow> Some err
             | (None, fs1) \<Rightarrow>
                 (case MkdirAll ''/out/q'' fs1 of
                    (Some err, fs2) \<Rightarrow> Some err
                  | (None, fs2) \<Rightarrow> Some (UnsupportedEntry 0x5A ''q/z'')))
            = Some (UnsupportedEntry 0x5A ''q/z'')" by code_simp
  have z5: "(\<forall>x\<in>set ?pre. \<not> whiteout_named out_image (fst x))
      \<and> (\<forall>x\<in>set (concat ?newer) \<union> set ?pre.
            recorded out_image (fst x) \<notin> set (dirnames ''/out/q/z''))" by code_simp
  note d = skipped_and_unsupported_types [where i = out_image and h = ?z and fm = Map.empty
      and c = "[]" and s = "[?f]" and fs = out_dir_fs and rest = "[]",
      THEN conjunct2, THEN conjunct2, unfolded tz pz dz]
  from d z z2 z3 have "fst (writeLayers out_image Map.empty [[(?z, []), ?f]] out_dir_fs) =
      (case type_transition out_image ?z out_dir_fs of
               (Some err, fs1) \<Rightarrow> Some err
             | (None, fs1) \<Rightarrow>
                 (case MkdirAll ''/out/q'' fs1 of
                    (Some err, fs2) \<Rightarrow> Some err
                  | (None, fs2) \<Rightarrow> Some (UnsupportedEntry 0x5A ''q/z'')))"
    unfolding tz by blast
  then have c5: "fst (writeLayers out_image Map.empty [[(?z, []), ?f]] out_dir_fs)
      = Some (UnsupportedEntry 0x5A ''q/z'')" unfolding z4 .
  note e = skipped_and_unsupported_types [where i = out_image and h = ?z and c = "[]"
      and s = "[?f]" and fs = root_only and pre = ?pre and newer = ?newer
      and older = ?older,
      THEN conjunct2, THEN conjunct2, unfolded tz pz dz]
  from e z z2 z5 have c6: "fst (AsDirectory out_image
      (?older @ (?pre @ (?z, []) # [?f]) # ?newer) root_only) \<noteq> None"
    unfolding tz by blast
  from c1 c2 c3 c4 c5 c6 show ?thesis unfolding tar_entry_def by simp
qed


section \<open>Parent directories\<close>




section \<open>The same path in two layers\<close>





end
